theory Spec2Isabelle
  imports Complex_Main "HOL-Library.Sublist"
begin

section \<open>JavaScript strings\<close>

text \<open>
  A JavaScript string is a sequence of code units; it is modelled as a \<open>string\<close>
  (a list of characters). Every pattern the program searches for is a literal, so
  searching is list searching.
\<close>

text \<open>\<^verbatim>\<open>s.includes(pat)\<close>: \<open>pat\<close> occurs in \<open>s\<close> as a contiguous run.\<close>

definition includesStr :: "string \<Rightarrow> string \<Rightarrow> bool" where
  "includesStr s pat = sublist pat s"

text \<open>\<^verbatim>\<open>s.endsWith(ext)\<close>.\<close>

definition endsWith :: "string \<Rightarrow> string \<Rightarrow> bool" where
  "endsWith s ext = suffix ext s"

text \<open>
  \<^verbatim>\<open>s.replace(pat, rep)\<close> with a string pattern: the first occurrence of \<open>pat\<close> is
  replaced, and a string without an occurrence is returned as it is. (No replacement
  text of the program holds a \<^verbatim>\<open>$\<close>, so the replacement is inserted as written.)
\<close>

fun replaceFirst :: "string \<Rightarrow> string \<Rightarrow> string \<Rightarrow> string" where
  "replaceFirst pat rep [] = (if pat = [] then rep else [])"
| "replaceFirst pat rep (c # cs) =
     (if prefix pat (c # cs) then rep @ drop (length pat) (c # cs)
      else c # replaceFirst pat rep cs)"

text \<open>
  \<^verbatim>\<open>s.replace(/pat/g, rep)\<close> for a regular expression that is a literal, non-empty
  text: the occurrences are replaced from left to right, the search going on after
  each replaced occurrence.
\<close>

function replaceAll :: "string \<Rightarrow> string \<Rightarrow> string \<Rightarrow> string" where
  "replaceAll pat rep s =
     (if pat = [] \<or> s = [] then s
      else if prefix pat s then rep @ replaceAll pat rep (drop (length pat) s)
      else hd s # replaceAll pat rep (tl s))"
  by pat_completeness auto
termination
  by (relation "measure (\<lambda>(pat, rep, s). length s)") auto

declare replaceAll.simps [simp del]

text \<open>Decimal digits of a number, as a template literal prints a length.\<close>

fun showNat :: "nat \<Rightarrow> string" where
  "showNat n =
     (if n < 10 then [char_of (48 + n)]
      else showNat (n div 10) @ [char_of (48 + n mod 10)])"

declare showNat.simps [simp del]

section \<open>POSIX paths (Node's \<^verbatim>\<open>path\<close> module)\<close>

text \<open>\<^verbatim>\<open>s.split("/")\<close>: the segments between the separators, empty ones included.\<close>

fun splitOn :: "char \<Rightarrow> string \<Rightarrow> string list" where
  "splitOn sep [] = [[]]"
| "splitOn sep (c # cs) =
     (if c = sep then [] # splitOn sep cs
      else (case splitOn sep cs of
              [] \<Rightarrow> [[c]]
            | x # xs \<Rightarrow> (c # x) # xs))"

text \<open>The segments joined with \<^verbatim>\<open>/\<close> again.\<close>

fun joinWith :: "string \<Rightarrow> string list \<Rightarrow> string" where
  "joinWith sep [] = []"
| "joinWith sep [x] = x"
| "joinWith sep (x # y # ys) = x @ sep @ joinWith sep (y # ys)"

text \<open>
  \<^verbatim>\<open>normalizeString\<close>, segment by segment: an empty segment and \<^verbatim>\<open>.\<close> are dropped;
  \<^verbatim>\<open>..\<close> removes the last segment kept so far unless there is none or it is \<^verbatim>\<open>..\<close>
  itself, in which case it is kept for a relative path (\<open>allowAboveRoot\<close>) and dropped
  for an absolute one; any other segment is kept.
\<close>

fun normalizeString :: "bool \<Rightarrow> string list \<Rightarrow> string list \<Rightarrow> string list" where
  "normalizeString allowAboveRoot res [] = res"
| "normalizeString allowAboveRoot res (seg # segs) =
     (if seg = [] \<or> seg = ''.'' then normalizeString allowAboveRoot res segs
      else if seg = ''..'' then
        (if res \<noteq> [] \<and> last res \<noteq> ''..''
         then normalizeString allowAboveRoot (butlast res) segs
         else if allowAboveRoot then normalizeString allowAboveRoot (res @ [''..'']) segs
         else normalizeString allowAboveRoot res segs)
      else normalizeString allowAboveRoot (res @ [seg]) segs)"

text \<open>\<^verbatim>\<open>path.normalize\<close>.\<close>

definition normalize :: "string \<Rightarrow> string" where
  "normalize path =
     (if path = [] then ''.''
      else
        let isAbsolute = (hd path = CHR ''/'');
            trailingSeparator = (last path = CHR ''/'');
            p = joinWith ''/'' (normalizeString (\<not> isAbsolute) [] (splitOn CHR ''/'' path))
        in if p = [] then (if isAbsolute then ''/'' else if trailingSeparator then ''./'' else ''.'')
           else (if isAbsolute then ''/'' else []) @ p @ (if trailingSeparator then ''/'' else []))"

text \<open>\<^verbatim>\<open>path.join\<close>: the non-empty arguments, joined with \<^verbatim>\<open>/\<close> and normalised.\<close>

definition path_join :: "string list \<Rightarrow> string" where
  "path_join args =
     (let joined = filter (\<lambda>arg. arg \<noteq> []) args
      in if joined = [] then ''.'' else normalize (joinWith ''/'' joined))"

text \<open>
  \<^verbatim>\<open>path.dirname\<close>: trailing separators and the last segment are cut off; the first
  character is never cut.
\<close>

definition dirname :: "string \<Rightarrow> string" where
  "dirname path =
     (if path = [] then ''.''
      else
        let hasRoot = (hd path = CHR ''/'');
            b = dropWhile (\<lambda>c. c \<noteq> CHR ''/'') (dropWhile (\<lambda>c. c = CHR ''/'') (rev (tl path)))
        in if b = [] then (if hasRoot then ''/'' else ''.'')
           else if hasRoot \<and> length b = 1 then ''//''
           else take (length b) path)"

text \<open>\<^verbatim>\<open>path.basename\<close> (no extension given): the last segment, trailing separators apart.\<close>

definition basename :: "string \<Rightarrow> string" where
  "basename path =
     rev (takeWhile (\<lambda>c. c \<noteq> CHR ''/'') (dropWhile (\<lambda>c. c = CHR ''/'') (rev path)))"

section \<open>Data model (shared/schema.ts)\<close>

text \<open>
  The severity of a finding is the string union
  \<^verbatim>\<open>"critical" | "high" | "medium" | "low"\<close>; the status of a security check is
  \<^verbatim>\<open>"passed" | "warning" | "critical" | "secure" | "failed"\<close>.
\<close>

datatype severity = Critical | High | Medium | Low

datatype check_status = Passed | Warning | CriticalStatus | Secure | Failed

text \<open>
  A \<^verbatim>\<open>Vulnerability\<close>. The field \<^verbatim>\<open>id\<close> is written \<open>id'\<close> (HOL has a constant
  \<open>id\<close>). The optional CVSS score is a decimal constant of the source, kept as a
  rational number.
\<close>

record Vulnerability =
  id' :: string
  title :: string
  description :: string
  severity :: severity
  category :: string
  location :: string
  cvssScore :: "rat option"
  recommendation :: "string option"

text \<open>
  A \<^verbatim>\<open>SecurityCheck\<close>, the result of one category. \<^verbatim>\<open>issueCount\<close> is always written
  from an array length.
\<close>

record SecurityCheck =
  status :: check_status
  issueCount :: nat
  details :: string
  findings :: "string list"
  vulnerabilities :: "Vulnerability list"
  recommendations :: "string list"
  codeSnippets :: "string list"

text \<open>
  An \<^verbatim>\<open>AnalysisResult\<close> is an object with one \<^verbatim>\<open>SecurityCheck\<close> under each of 25 fixed
  keys: a total function from the keys.
\<close>

datatype category_key =
    Reconnaissance | SubdomainEnumeration | PortScanning | DirectoryEnumeration
  | VulnerabilityScanning | ManualTesting | AuthenticationTesting | SessionManagement
  | InputValidation | SqlInjection | Xss | Csrf | Ssrf | Idor | Rce | FileInclusion
  | Clickjacking | RateLimiting | AccessControl | BusinessLogic | ApiTesting
  | MobileAppTesting | ClientSideVulns | InformationDisclosure | ServerSideVulns

type_synonym AnalysisResult = "category_key \<Rightarrow> SecurityCheck"

section \<open>The extraction directory\<close>

text \<open>
  What the analyzer finds under \<^verbatim>\<open>extractedPath\<close>: regular files with their text and
  directories with their entries in the order \<^verbatim>\<open>readdirSync\<close> lists them. Extraction
  writes nothing else there.
\<close>

datatype node = File string | Dir "(string \<times> node) list"

text \<open>
  The entry \<open>name\<close> of the extraction directory, if the directory exists and has one
  (\<^verbatim>\<open>fs.existsSync(path.join(this.extractedPath, name))\<close>).
\<close>

fun child :: "node option \<Rightarrow> string \<Rightarrow> node option" where
  "child (Some (Dir items)) name = map_of items name"
| "child _ name = None"

text \<open>
  \<^verbatim>\<open>findFiles(dir, extensions)\<close>: the files below \<open>dir\<close> whose name ends with one of
  the extensions, depth first in directory order, each with its full path. The second
  component is the text \<^verbatim>\<open>readFile(file, "utf8")\<close> returns for it. \<open>traverse\<close> called on
  something that is not a directory lists nothing (\<^verbatim>\<open>readdirSync\<close> throws and the
  error is swallowed).
\<close>

fun traverse :: "string list \<Rightarrow> string \<Rightarrow> node \<Rightarrow> (string \<times> string) list"
  and traverseItems :: "string list \<Rightarrow> string \<Rightarrow> (string \<times> node) list \<Rightarrow> (string \<times> string) list"
where
  "traverse extensions currentDir (File c) = []"
| "traverse extensions currentDir (Dir items) = traverseItems extensions currentDir items"
| "traverseItems extensions currentDir [] = []"
| "traverseItems extensions currentDir ((item, Dir sub) # rest) =
     traverse extensions (path_join [currentDir, item]) (Dir sub)
       @ traverseItems extensions currentDir rest"
| "traverseItems extensions currentDir ((item, File c) # rest) =
     (if list_ex (\<lambda>ext. endsWith item ext) extensions
      then [(path_join [currentDir, item], c)] else [])
       @ traverseItems extensions currentDir rest"

definition findFiles :: "node option \<Rightarrow> string \<Rightarrow> string list \<Rightarrow> (string \<times> string) list" where
  "findFiles scratch dir extensions =
     (case scratch of None \<Rightarrow> [] | Some n \<Rightarrow> traverse extensions dir n)"

section \<open>Detectors (APKAnalyzer)\<close>

text \<open>
  The status both detectors compute from their vulnerability list:
  \<^verbatim>\<open>length > 0 ? (some(high or critical) ? "critical" : "warning") : "passed"\<close>.
\<close>

definition statusOf :: "Vulnerability list \<Rightarrow> check_status" where
  "statusOf vs =
     (if length vs > 0
      then (if list_ex (\<lambda>v. severity v = High \<or> severity v = Critical) vs
            then CriticalStatus else Warning)
      else Passed)"

text \<open>The four lists a detector fills while it scans.\<close>

record scan =
  scanFindings :: "string list"
  scanVulnerabilities :: "Vulnerability list"
  scanRecommendations :: "string list"
  scanCodeSnippets :: "string list"

definition emptyScan :: scan where
  "emptyScan = \<lparr>scanFindings = [], scanVulnerabilities = [], scanRecommendations = [],
                 scanCodeSnippets = []\<rparr>"

text \<open>One finding: a push onto each of the four lists.\<close>

definition report :: "string \<Rightarrow> Vulnerability \<Rightarrow> string \<Rightarrow> string \<Rightarrow> scan \<Rightarrow> scan" where
  "report finding v rec snippet s =
     \<lparr>scanFindings = scanFindings s @ [finding],
      scanVulnerabilities = scanVulnerabilities s @ [v],
      scanRecommendations = scanRecommendations s @ [rec],
      scanCodeSnippets = scanCodeSnippets s @ [snippet]\<rparr>"

text \<open>The object a detector stores under its key.\<close>

definition checkOf :: "string \<Rightarrow> scan \<Rightarrow> SecurityCheck" where
  "checkOf detailsText s =
     \<lparr>status = statusOf (scanVulnerabilities s),
      issueCount = length (scanVulnerabilities s),
      details = detailsText,
      findings = scanFindings s,
      vulnerabilities = scanVulnerabilities s,
      recommendations = scanRecommendations s,
      codeSnippets = scanCodeSnippets s\<rparr>"

subsection \<open>Reconnaissance\<close>

definition recon001 :: Vulnerability where
  "recon001 =
     \<lparr>id' = ''recon-001'', title = ''Debug Mode Enabled'',
      description = ''Application has debug mode enabled which can expose sensitive information'',
      severity = Medium, category = ''Information Disclosure'',
      location = ''AndroidManifest.xml'', cvssScore = Some (53 / 10),
      recommendation = Some ''Disable debug mode in production builds''\<rparr>"

definition recon002 :: Vulnerability where
  "recon002 =
     \<lparr>id' = ''recon-002'', title = ''Backup Allowed'',
      description = ''Application allows backup which may expose sensitive data'',
      severity = Low, category = ''Data Protection'',
      location = ''AndroidManifest.xml'', cvssScore = Some (31 / 10),
      recommendation = Some ''Disable backup for sensitive applications''\<rparr>"

definition recon003 :: Vulnerability where
  "recon003 =
     \<lparr>id' = ''recon-003'', title = ''Exported Components Without Protection'',
      description = ''Components are exported without proper permission checks'',
      severity = High, category = ''Access Control'',
      location = ''AndroidManifest.xml'', cvssScore = Some (75 / 10),
      recommendation = Some ''Add permission requirements to exported components''\<rparr>"

text \<open>The three checks on the text of the manifest, in the order of the source.\<close>

definition scanManifest :: \<open>string \<Rightarrow> scan\<close> where
  \<open>scanManifest content =
     (let s0 = emptyScan;
          s1 = (if includesStr content ''android:debuggable="true"''
                then report ''Debug mode enabled in production'' recon001
                       ''Set android:debuggable="false" in production builds''
                       ''android:debuggable="true"'' s0
                else s0);
          s2 = (if includesStr content ''android:allowBackup="true"''
                then report ''Backup allowed for sensitive data'' recon002
                       ''Set android:allowBackup="false" for sensitive applications''
                       ''android:allowBackup="true"'' s1
                else s1);
          s3 = (if includesStr content ''android:exported="true"''
                   \<and> \<not> includesStr content ''android:permission=''
                then report ''Exported components without proper permissions'' recon003
                       ''Add android:permission to all exported components''
                       ''android:exported="true" without permission'' s2
                else s2)
      in s3)\<close>

text \<open>
  \<^verbatim>\<open>analyzeReconnaissance\<close>, up to the object it stores. The manifest is looked up in
  the extraction directory; when it is missing nothing is scanned, and when it cannot
  be read as a file (\<^verbatim>\<open>readFile\<close> throws) the detector's own \<^verbatim>\<open>catch\<close> leaves the
  lists empty.
\<close>

definition reconnaissanceCheck :: "node option \<Rightarrow> SecurityCheck" where
  "reconnaissanceCheck scratch =
     (let s = (case child scratch ''AndroidManifest.xml'' of
                 Some (File content) \<Rightarrow> scanManifest content
               | Some (Dir items) \<Rightarrow> emptyScan
               | None \<Rightarrow> emptyScan)
      in checkOf (''Found '' @ showNat (length (scanVulnerabilities s))
                    @ '' reconnaissance issues'') s)"

subsection \<open>Cross-site scripting\<close>

definition xss001 :: "string \<Rightarrow> Vulnerability" where
  "xss001 file =
     \<lparr>id' = ''xss-001'', title = ''Unsafe WebView JavaScript Configuration'',
      description = ''WebView has JavaScript enabled without proper JavascriptInterface protection'',
      severity = High, category = ''Cross-Site Scripting'',
      location = file, cvssScore = Some (75 / 10),
      recommendation = Some ''Implement proper JavascriptInterface annotations and input validation''\<rparr>"

definition xss002 :: "string \<Rightarrow> Vulnerability" where
  "xss002 file =
     \<lparr>id' = ''xss-002'', title = ''Unsafe URL Loading'',
      description = ''WebView loads URLs without proper validation'',
      severity = Medium, category = ''Cross-Site Scripting'',
      location = file, cvssScore = Some (61 / 10),
      recommendation = Some ''Validate URLs before loading and use HTTPS only''\<rparr>"

definition xss003 :: "string \<Rightarrow> Vulnerability" where
  "xss003 file =
     \<lparr>id' = ''xss-003'', title = ''DOM-based XSS Risk'',
      description = ''Code uses innerHTML or document.write which can lead to XSS'',
      severity = High, category = ''Cross-Site Scripting'',
      location = file, cvssScore = Some (82 / 10),
      recommendation = Some ''Use safe DOM manipulation methods and sanitize input''\<rparr>"

text \<open>The body of the loop over the source files: three checks on one file.\<close>

definition scanSourceFile :: \<open>string \<times> string \<Rightarrow> scan \<Rightarrow> scan\<close> where
  \<open>scanSourceFile fc s0 =
     (let file = fst fc; content = snd fc;
          s1 = (if includesStr content ''setJavaScriptEnabled(true)''
                   \<and> (\<not> includesStr content ''addJavascriptInterface''
                        \<or> \<not> includesStr content ''@JavascriptInterface'')
                then report (''JavaScript enabled without proper interface protection in ''
                               @ basename file) (xss001 file)
                       ''Use @JavascriptInterface annotation and validate all JavaScript interactions''
                       ''setJavaScriptEnabled(true)'' s0
                else s0);
          s2 = (if includesStr content ''loadUrl(''
                   \<and> \<not> includesStr content ''startsWith("https://")''
                then report (''Potentially unsafe URL loading in '' @ basename file) (xss002 file)
                       ''Validate all URLs and enforce HTTPS''
                       ''loadUrl(userInput)'' s1
                else s1);
          s3 = (if includesStr content ''innerHTML'' \<or> includesStr content ''document.write''
                then report (''Potential DOM-based XSS in '' @ basename file) (xss003 file)
                       ''Use textContent instead of innerHTML and sanitize all user input''
                       ''element.innerHTML = userInput'' s2
                else s2)
      in s3)\<close>

text \<open>
  \<^verbatim>\<open>analyzeXSS\<close>, up to the object it stores: the files with the extensions
  \<^verbatim>\<open>.java\<close>, \<^verbatim>\<open>.kt\<close>, \<^verbatim>\<open>.js\<close> and \<^verbatim>\<open>.html\<close> are scanned in the order found.
\<close>

definition xssCheck :: "string \<Rightarrow> node option \<Rightarrow> SecurityCheck" where
  "xssCheck extractedPath scratch =
     (let sourceFiles = findFiles scratch extractedPath [''.java'', ''.kt'', ''.js'', ''.html''];
          s = foldl (\<lambda>s fc. scanSourceFile fc s) emptyScan sourceFiles
      in checkOf (''Found '' @ showNat (length (scanVulnerabilities s))
                    @ '' XSS vulnerabilities'') s)"

subsection \<open>The other categories\<close>

text \<open>
  Each of the other 23 detectors stores a fixed object: passed, no issue, empty lists,
  and its own \<^verbatim>\<open>details\<close> text.
\<close>

definition fixedCheck :: "string \<Rightarrow> SecurityCheck" where
  "fixedCheck detailsText =
     \<lparr>status = Passed, issueCount = 0, details = detailsText, findings = [],
      vulnerabilities = [], recommendations = [], codeSnippets = []\<rparr>"

section \<open>The analyzer and its pipeline\<close>

text \<open>A JavaScript \<^verbatim>\<open>Error\<close> with its message.\<close>

datatype exn = Error string

text \<open>
  The fields of an \<^verbatim>\<open>APKAnalyzer\<close>; \<open>allVulnerabilities\<close> is \<^verbatim>\<open>this.vulnerabilities\<close>
  (the name \<open>vulnerabilities\<close> is the field of a \<^verbatim>\<open>SecurityCheck\<close>).
\<close>

record analyzer =
  apkPath :: string
  extractedPath :: string
  analysisResults :: AnalysisResult
  allVulnerabilities :: "Vulnerability list"

definition emptySecurityCheck :: SecurityCheck where
  "emptySecurityCheck =
     \<lparr>status = Passed, issueCount = 0, details = [], findings = [], vulnerabilities = [],
      recommendations = [], codeSnippets = []\<rparr>"

text \<open>\<^verbatim>\<open>initializeAnalysisResults\<close>: a copy of the empty check under every key.\<close>

definition initializeAnalysisResults :: AnalysisResult where
  "initializeAnalysisResults = (\<lambda>k. emptySecurityCheck)"

text \<open>
  The constructor. \<open>now\<close> is the value of \<^verbatim>\<open>Date.now()\<close>, printed in decimal into the
  name of the extraction directory.
\<close>

definition newAnalyzer :: "string \<Rightarrow> nat \<Rightarrow> analyzer" where
  "newAnalyzer path now =
     \<lparr>apkPath = path,
      extractedPath = path_join [dirname path, ''extracted_'' @ showNat now],
      analysisResults = initializeAnalysisResults,
      allVulnerabilities = []\<rparr>"

text \<open>
  A detector of the pipeline. Every detector method of the source computes its lists,
  then stores one object under its own key of \<^verbatim>\<open>this.analysisResults\<close> and pushes the
  object's vulnerabilities onto \<^verbatim>\<open>this.vulnerabilities\<close>. A detector is therefore its
  key and the computation of that object from the extraction directory, which either
  returns the object or throws before anything is stored.
\<close>

type_synonym detector = "category_key \<times> (string \<Rightarrow> node option \<Rightarrow> exn + SecurityCheck)"

text \<open>
  One turn of the loop of \<^verbatim>\<open>runSecurityAnalyses\<close>: \<^verbatim>\<open>try { await analysis() }\<close>, and
  the \<^verbatim>\<open>catch\<close> that only logs.
\<close>

definition runAnalysis :: "node option \<Rightarrow> analyzer \<Rightarrow> detector \<Rightarrow> analyzer" where
  "runAnalysis scratch a d =
     (case snd d (extractedPath a) scratch of
        Inl error \<Rightarrow> a
      | Inr check \<Rightarrow>
          a\<lparr>analysisResults := (analysisResults a)(fst d := check),
            allVulnerabilities := allVulnerabilities a @ vulnerabilities check\<rparr>)"

text \<open>The loop over a registry of detectors, in order.\<close>

definition runAnalyses :: "detector list \<Rightarrow> node option \<Rightarrow> analyzer \<Rightarrow> analyzer" where
  "runAnalyses registry scratch a = foldl (runAnalysis scratch) a registry"

text \<open>The registry of the source: 25 detectors, none of which throws.\<close>

definition analyses :: "detector list" where
  "analyses =
     [(Reconnaissance, \<lambda>root scratch. Inr (reconnaissanceCheck scratch)),
      (Xss, \<lambda>root scratch. Inr (xssCheck root scratch)),
      (Csrf, \<lambda>root scratch. Inr (fixedCheck ''CSRF analysis completed'')),
      (Ssrf, \<lambda>root scratch. Inr (fixedCheck ''SSRF analysis completed'')),
      (Idor, \<lambda>root scratch. Inr (fixedCheck ''IDOR analysis completed'')),
      (Rce, \<lambda>root scratch. Inr (fixedCheck ''RCE analysis completed'')),
      (AccessControl, \<lambda>root scratch. Inr (fixedCheck ''Access control analysis completed'')),
      (InputValidation, \<lambda>root scratch. Inr (fixedCheck ''Input validation analysis completed'')),
      (SqlInjection, \<lambda>root scratch. Inr (fixedCheck ''SQL injection analysis completed'')),
      (SessionManagement, \<lambda>root scratch. Inr (fixedCheck ''Session management analysis completed'')),
      (AuthenticationTesting, \<lambda>root scratch. Inr (fixedCheck ''Authentication testing completed'')),
      (FileInclusion, \<lambda>root scratch. Inr (fixedCheck ''File inclusion analysis completed'')),
      (Clickjacking, \<lambda>root scratch. Inr (fixedCheck ''Clickjacking analysis completed'')),
      (RateLimiting, \<lambda>root scratch. Inr (fixedCheck ''Rate limiting analysis completed'')),
      (BusinessLogic, \<lambda>root scratch. Inr (fixedCheck ''Business logic analysis completed'')),
      (ApiTesting, \<lambda>root scratch. Inr (fixedCheck ''API testing completed'')),
      (MobileAppTesting, \<lambda>root scratch. Inr (fixedCheck ''Mobile app security analysis completed'')),
      (ClientSideVulns, \<lambda>root scratch. Inr (fixedCheck ''Client-side vulnerability analysis completed'')),
      (InformationDisclosure, \<lambda>root scratch. Inr (fixedCheck ''Information disclosure analysis completed'')),
      (ServerSideVulns, \<lambda>root scratch. Inr (fixedCheck ''Server-side vulnerability analysis completed'')),
      (VulnerabilityScanning, \<lambda>root scratch. Inr (fixedCheck ''Vulnerability scanning completed'')),
      (SubdomainEnumeration, \<lambda>root scratch. Inr (fixedCheck ''Subdomain enumeration completed'')),
      (PortScanning, \<lambda>root scratch. Inr (fixedCheck ''Port scanning completed'')),
      (DirectoryEnumeration, \<lambda>root scratch. Inr (fixedCheck ''Directory enumeration completed'')),
      (ManualTesting, \<lambda>root scratch. Inr (fixedCheck ''Manual testing guidelines provided''))]"

text \<open>\<^verbatim>\<open>runSecurityAnalyses\<close>.\<close>

definition runSecurityAnalyses :: "node option \<Rightarrow> analyzer \<Rightarrow> analyzer" where
  "runSecurityAnalyses scratch a = runAnalyses analyses scratch a"

text \<open>
  The status invariant of a category result: critical if and only if some contained
  vulnerability is critical or high; otherwise warning if and only if the issue count
  is positive; otherwise passed; and the issue count is the number of vulnerabilities.
\<close>

definition categoryInvariant :: "SecurityCheck \<Rightarrow> bool" where
  "categoryInvariant r \<longleftrightarrow>
     status r =
       (if list_ex (\<lambda>v. severity v = Critical \<or> severity v = High) (vulnerabilities r)
        then CriticalStatus
        else if issueCount r > 0 then Warning else Passed)
     \<and> issueCount r = length (vulnerabilities r)"

section \<open>The world outside the analyzer\<close>

text \<open>
  What the program finds on disk and changes there. \<open>'c\<close> is the type of the bytes of an
  archive file.
  \<^item> \<open>apk\<close>: the upload at \<^verbatim>\<open>apkPath\<close> (\<open>None\<close>: no such file), either something
    \<^verbatim>\<open>yauzl.open\<close> refuses or a zip archive with its entries in order: the name as
    stored, and the data (\<open>None\<close>: \<^verbatim>\<open>openReadStream\<close> reports an error for the entry);
  \<^item> \<open>extracted\<close>: what is at \<^verbatim>\<open>extractedPath\<close> (\<open>None\<close>: nothing);
  \<^item> \<open>outside\<close>: the files extraction has written at paths that are not below
    \<^verbatim>\<open>extractedPath\<close>, with their paths;
  \<^item> \<open>fixedApksDirExists\<close>: whether the directory \<^verbatim>\<open>fixed_apks\<close> exists;
  \<^item> \<open>files\<close>: the archive files written by repackaging and signing, by path.
\<close>

datatype apk_file = NotAZip | Zip "(string \<times> string option) list"

record 'c disk =
  apk :: "apk_file option"
  extracted :: "node option"
  outside :: "(string \<times> string) list"
  fixedApksDirExists :: bool
  files :: "string \<rightharpoonup> 'c"

text \<open>
  What the program cannot decide itself: the outcome of each external tool and of each
  file-system call that can fail for a reason outside the program.
  \<^item> \<open>mkdirFails\<close>: \<^verbatim>\<open>mkdir("fixed_apks")\<close> fails; \<open>outputFails\<close>: the output stream or
    the archiver reports an error while the archive is written;
  \<^item> \<open>compress\<close>: the bytes the archiver writes for a list of entries;
  \<^item> \<open>keystoreExists\<close>: the debug keystore exists when \<^verbatim>\<open>signApk\<close> looks for it;
  \<^item> \<open>zipalign\<close>, \<open>jarsigner\<close>: the bytes the tool produces from its input (\<open>None\<close>: the
    command fails);
  \<^item> \<open>copyFails\<close>, \<open>renameFails\<close>, \<open>removeFails\<close>: \<^verbatim>\<open>copyFileSync\<close>, \<^verbatim>\<open>renameSync\<close>,
    \<^verbatim>\<open>unlinkSync\<close> or \<^verbatim>\<open>rmdirSync\<close> throws for these paths although the files are there;
  \<^item> \<open>xmlParses\<close>: \<^verbatim>\<open>xml2js\<close> accepts the text.
\<close>

record 'c env =
  mkdirFails :: bool
  outputFails :: bool
  compress :: "(string \<times> string) list \<Rightarrow> 'c"
  keystoreExists :: bool
  zipalign :: "'c \<Rightarrow> 'c option"
  jarsigner :: "'c \<Rightarrow> 'c option"
  copyFails :: "string \<Rightarrow> string \<Rightarrow> bool"
  renameFails :: "string \<Rightarrow> string \<Rightarrow> bool"
  removeFails :: "string \<Rightarrow> bool"
  xmlParses :: "string \<Rightarrow> bool"

section \<open>Extraction (extractAPK)\<close>

text \<open>
  The non-empty segments of a path, and whether it is absolute.
\<close>

definition segments :: "string \<Rightarrow> string list" where
  "segments p = filter (\<lambda>s. s \<noteq> []) (splitOn CHR ''/'' p)"

definition isAbsolute :: "string \<Rightarrow> bool" where
  "isAbsolute p = prefix ''/'' p"

text \<open>
  Where a normalised path \<open>p\<close> lies relative to the directory \<open>dir\<close>: \<open>Some\<close> of the
  segments that lead from \<open>dir\<close> to it when it is \<open>dir\<close> itself or below it, \<open>None\<close> when
  it is anywhere else.
\<close>

definition pathUnder :: "string \<Rightarrow> string \<Rightarrow> string list option" where
  "pathUnder dir p =
     (let d = segments dir; s = segments p
      in if isAbsolute p = isAbsolute dir \<and> prefix d s \<and> ''..'' \<notin> set (drop (length d) s)
         then Some (drop (length d) s) else None)"

text \<open>
  The node a write creates where nothing was: the directories \<^verbatim>\<open>mkdirSync\<close> makes on the
  way (\<^verbatim>\<open>recursive: true\<close>), then the file.
\<close>

fun fresh :: "string list \<Rightarrow> string \<Rightarrow> node" where
  "fresh [] data = File data"
| "fresh (s # rest) data = Dir [(s, fresh rest data)]"

text \<open>
  \<^verbatim>\<open>mkdirSync(outputDir, { recursive: true })\<close> and the write stream on the output path,
  followed from the extraction directory along the segments of the path. \<open>None\<close>: a
  segment on the way is a file (\<^verbatim>\<open>mkdirSync\<close> throws) or the target is a directory (the
  stream reports an error); then nothing is written.
\<close>

fun writeAt :: "string list \<Rightarrow> string \<Rightarrow> node \<Rightarrow> node option" where
  "writeAt [] data (File c) = Some (File data)"
| "writeAt [] data (Dir items) = None"
| "writeAt (s # rest) data (File c) = None"
| "writeAt (s # rest) data (Dir items) =
     (case map_of items s of
        None \<Rightarrow> Some (Dir (items @ [(s, fresh rest data)]))
      | Some sub \<Rightarrow>
          (case writeAt rest data sub of
             None \<Rightarrow> None
           | Some sub' \<Rightarrow> Some (Dir (map (\<lambda>(k, n). if k = s then (k, sub') else (k, n)) items))))"

text \<open>
  The check \<^verbatim>\<open>yauzl\<close> makes on the name of every entry before it emits the entry
  (\<^verbatim>\<open>validateFileName\<close>; \<^verbatim>\<open>decodeStrings\<close> is on unless switched off, and the program
  passes only \<^verbatim>\<open>lazyEntries\<close>): a name with a backslash, an absolute name and a name
  with a \<^verbatim>\<open>..\<close> segment are errors. The result is the error message, \<open>None\<close> for a name
  that passes.
\<close>

definition isLetter :: "char \<Rightarrow> bool" where
  "isLetter c =
     (let n = (of_char c :: nat) in (65 \<le> n \<and> n \<le> 90) \<or> (97 \<le> n \<and> n \<le> 122))"

definition validateFileName :: "string \<Rightarrow> string option" where
  "validateFileName fileName =
     (if CHR 0x5C \<in> set fileName
      then Some (''invalid characters in fileName: '' @ fileName)
      else if (case fileName of c # d # rest \<Rightarrow> isLetter c \<and> d = CHR '':'' | _ \<Rightarrow> False)
              \<or> prefix ''/'' fileName
      then Some (''absolute path: '' @ fileName)
      else if ''..'' \<in> set (splitOn CHR ''/'' fileName)
      then Some (''invalid relative path: '' @ fileName)
      else None)"

text \<open>
  The name of an entry as the \<^verbatim>\<open>entry\<close> event carries it: \<^verbatim>\<open>yauzl\<close> replaces every
  backslash with a slash (\<^verbatim>\<open>strictFileNames\<close> is off) before it checks the name.
\<close>

definition entryFileName :: "string \<Rightarrow> string" where
  "entryFileName raw = map (\<lambda>c. if c = CHR 0x5C then CHR ''/'' else c) raw"

text \<open>
  The write of one file entry: where the output path is the extraction directory or
  below it, the file is written into the directory tree (or the failure is logged and
  the tree stays as it is); a path anywhere else is recorded in the list of writes
  outside.
\<close>

definition writeEntry :: "string \<Rightarrow> string \<Rightarrow> string \<Rightarrow> node \<times> (string \<times> string) list
    \<Rightarrow> node \<times> (string \<times> string) list" where
  "writeEntry dir outputPath data st =
     (case pathUnder dir outputPath of
        None \<Rightarrow> (fst st, snd st @ [(outputPath, data)])
      | Some rel \<Rightarrow>
          (case writeAt rel data (fst st) of
             None \<Rightarrow> st
           | Some n' \<Rightarrow> (n', snd st)))"

text \<open>
  The entries of the archive, one \<^verbatim>\<open>readEntry\<close> after the other. An entry whose name
  fails the check, or whose read stream cannot be opened, rejects the promise: the loop
  stops with the error. An entry whose name ends with \<^verbatim>\<open>/\<close> is skipped. Every other
  entry is written to \<^verbatim>\<open>path.join(this.extractedPath, entry.fileName)\<close>.
\<close>

fun extractEntries :: "string \<Rightarrow> (string \<times> string option) list \<Rightarrow> node \<times> (string \<times> string) list
    \<Rightarrow> exn option \<times> node \<times> (string \<times> string) list" where
  "extractEntries dir [] st = (None, st)"
| "extractEntries dir ((raw, stream) # rest) st =
     (let fileName = entryFileName raw
      in case validateFileName fileName of
           Some msg \<Rightarrow> (Some (Error msg), st)
         | None \<Rightarrow>
             if endsWith fileName ''/'' then extractEntries dir rest st
             else (case stream of
                     None \<Rightarrow> (Some (Error ''openReadStream''), st)
                   | Some data \<Rightarrow>
                       extractEntries dir rest
                         (writeEntry dir (path_join [dir, fileName]) data st)))"

text \<open>
  \<^verbatim>\<open>extractAPK\<close>: \<^verbatim>\<open>yauzl.open\<close> fails for a missing file or something that is not a
  zip archive; otherwise the extraction directory is created unless something is there
  already, and the entries are extracted. The first component is the error the promise
  is rejected with, \<open>None\<close> when it is resolved.
\<close>

definition extractAPK :: "analyzer \<Rightarrow> 'c disk \<Rightarrow> exn option \<times> 'c disk" where
  "extractAPK a d =
     (case apk d of
        None \<Rightarrow> (Some (Error ''ENOENT''), d)
      | Some NotAZip \<Rightarrow> (Some (Error ''end of central directory record signature not found''), d)
      | Some (Zip entries) \<Rightarrow>
          (let n0 = (case extracted d of None \<Rightarrow> Dir [] | Some n \<Rightarrow> n);
               r = extractEntries (extractedPath a) entries (n0, outside d)
           in (fst r, d\<lparr>extracted := Some (fst (snd r)), outside := snd (snd r)\<rparr>)))"

text \<open>
  Two predicates for the proofs about paths. A list of segments is in normal form (for
  a relative path when \<open>al\<close> holds, for an absolute one otherwise) when no segment is
  empty, \<^verbatim>\<open>.\<close> or holds a separator, and \<^verbatim>\<open>..\<close> stands only at the front, and only in
  a relative path. A directory path has root form when it is a list of segments in
  normal form, at least one, joined with \<^verbatim>\<open>/\<close> after the leading \<^verbatim>\<open>/\<close> of an absolute path.
\<close>

definition nf :: "bool \<Rightarrow> string list \<Rightarrow> bool" where
  "nf al res \<longleftrightarrow>
     (\<forall>s \<in> set res. s \<noteq> [] \<and> s \<noteq> ''.'' \<and> CHR ''/'' \<notin> set s)
     \<and> (\<exists>k rest. res = replicate k ''..'' @ rest \<and> ''..'' \<notin> set rest \<and> (\<not> al \<longrightarrow> k = 0))"

definition rootForm :: "string \<Rightarrow> string \<Rightarrow> string list \<Rightarrow> bool" where
  "rootForm dir pre res \<longleftrightarrow>
     dir = pre @ joinWith ''/'' res \<and> (pre = [] \<or> pre = ''/'') \<and> res \<noteq> [] \<and> nf (pre = []) res"

section \<open>Repackaging (generateDevModeAPK)\<close>

subsection \<open>The manifest\<close>

text \<open>
  The first match of a regular expression of the shape \<^verbatim>\<open>lit([^c]*)c\<close> in a text, for
  a literal \<open>lit\<close> and a character \<open>c\<close>: the text before the match, the group, and the
  text after the match. The engine tries the positions from the left; at a position
  where \<open>lit\<close> stands the group takes every character up to the next \<open>c\<close>, and
  without a later \<open>c\<close> there is no match at that position.
\<close>

fun matchDelimited :: "string \<Rightarrow> char \<Rightarrow> string \<Rightarrow> (string \<times> string \<times> string) option" where
  "matchDelimited lit c [] = None"
| "matchDelimited lit c (x # xs) =
     (if prefix lit (x # xs) \<and> c \<in> set (drop (length lit) (x # xs))
      then Some ([], takeWhile (\<lambda>y. y \<noteq> c) (drop (length lit) (x # xs)),
                 tl (dropWhile (\<lambda>y. y \<noteq> c) (drop (length lit) (x # xs))))
      else (case matchDelimited lit c xs of
              None \<Rightarrow> None
            | Some (before, grp, after) \<Rightarrow> Some (x # before, grp, after)))"

text \<open>
  The replacement of the first application tag,
  \<^verbatim>\<open>s.replace(/<application([^>]*)>/, '<application$1' + attr + '>')\<close>: the attribute
  is put before the closing bracket of the first match, and a text without a match is
  returned as it is.
\<close>

definition replaceApplicationTag :: "string \<Rightarrow> string \<Rightarrow> string" where
  "replaceApplicationTag attr s =
     (case matchDelimited ''<application'' CHR ''>'' s of
        None \<Rightarrow> s
      | Some (before, grp, after) \<Rightarrow> before @ ''<application'' @ grp @ attr @ ''>'' @ after)"

definition testPermissions :: "string list" where
  "testPermissions =
     [''android.permission.WRITE_EXTERNAL_STORAGE'',
      ''android.permission.READ_EXTERNAL_STORAGE'',
      ''android.permission.INTERNET'',
      ''android.permission.ACCESS_NETWORK_STATE'',
      ''android.permission.ACCESS_WIFI_STATE'',
      ''com.android.vending.BILLING'']"

text \<open>The body of the loop over the test permissions.\<close>

definition addPermission :: \<open>string \<Rightarrow> string \<Rightarrow> string\<close> where
  \<open>addPermission modifiedManifest permission =
     (if \<not> includesStr modifiedManifest permission
      then replaceFirst ''</manifest>''
             (''    <uses-permission android:name="'' @ permission @ ''" />\<newline></manifest>'')
             modifiedManifest
      else modifiedManifest)\<close>

text \<open>\<^verbatim>\<open>enhanceManifestForDevMode\<close>, statement by statement.\<close>

definition enhanceManifestForDevMode :: \<open>string \<Rightarrow> string\<close> where
  \<open>enhanceManifestForDevMode manifestContent =
     (let m0 = manifestContent;
          m1 = (if \<not> includesStr m0 ''android:debuggable=''
                then replaceApplicationTag '' android:debuggable="true"'' m0
                else replaceAll ''android:debuggable="false"'' ''android:debuggable="true"'' m0);
          m2 = (if \<not> includesStr m1 ''android:allowBackup=''
                then replaceApplicationTag '' android:allowBackup="true"'' m1
                else replaceAll ''android:allowBackup="false"'' ''android:allowBackup="true"'' m1);
          m3 = (if \<not> includesStr m2 ''android:networkSecurityConfig=''
                then replaceApplicationTag
                       '' android:networkSecurityConfig="@xml/network_security_config"'' m2
                else m2)
      in foldl addPermission m3 testPermissions)\<close>

definition createNetworkSecurityConfig :: \<open>string\<close> where
  \<open>createNetworkSecurityConfig =
     ''<?xml version="1.0" encoding="utf-8"?>\<newline>''
     @ ''<network-security-config>\<newline>''
     @ ''    <domain-config cleartextTrafficPermitted="true">\<newline>''
     @ ''        <domain includeSubdomains="true">localhost</domain>\<newline>''
     @ ''        <domain includeSubdomains="true">10.0.2.2</domain>\<newline>''
     @ ''        <domain includeSubdomains="true">127.0.0.1</domain>\<newline>''
     @ ''    </domain-config>\<newline>''
     @ ''    <debug-overrides>\<newline>''
     @ ''        <trust-anchors>\<newline>''
     @ ''            <certificates src="user"/>\<newline>''
     @ ''            <certificates src="system"/>\<newline>''
     @ ''        </trust-anchors>\<newline>''
     @ ''    </debug-overrides>\<newline>''
     @ ''</network-security-config>''\<close>

subsection \<open>The source files\<close>

text \<open>
  The regular expressions of the source transforms end in \<^verbatim>\<open>$$\<close>, two assertions of
  the end of the input: such an expression matches its literal only as the last
  characters of the text, so at most once. \<open>replaceAtEnd lit rep\<close> is the replacement
  of that match.
\<close>

definition replaceAtEnd :: "string \<Rightarrow> string \<Rightarrow> string \<Rightarrow> string" where
  "replaceAtEnd lit rep s =
     (if suffix lit s then take (length s - length lit) s @ rep else s)"

text \<open>
  An alternation of such literals, none of which ends another: the alternatives are
  tried in order. The replacement is built from the alternative that matched.
\<close>

definition replaceAnyAtEnd :: "string list \<Rightarrow> (string \<Rightarrow> string) \<Rightarrow> string \<Rightarrow> string" where
  "replaceAnyAtEnd lits rep s =
     (case find (\<lambda>lit. suffix lit s) lits of
        None \<Rightarrow> s
      | Some lit \<Rightarrow> take (length s - length lit) s @ rep lit)"

definition containsBillingCode :: "string \<Rightarrow> bool" where
  "containsBillingCode content \<longleftrightarrow>
     includesStr content ''BillingClient'' \<or> includesStr content ''SkuDetails''
     \<or> includesStr content ''Purchase'' \<or> includesStr content ''com.android.vending.BILLING''
     \<or> includesStr content ''IInAppBillingService''"

definition mockPurchaseCode :: \<open>string\<close> where
  \<open>mockPurchaseCode =
     ''\<newline>    // DEV MODE: Mock purchase success for testing\<newline>''
     @ ''    if (BuildConfig.DEBUG) {\<newline>''
     @ ''        Log.d("DevMode", "Mocking successful purchase for testing");\<newline>''
     @ ''        // Force success response for testing\<newline>''
     @ ''        if (responseCode == BillingClient.BillingResponseCode.OK) {\<newline>''
     @ ''            Log.d("DevMode", "Purchase simulation successful");\<newline>''
     @ ''        }\<newline>''
     @ ''    }''\<close>

definition addInAppPurchaseSandboxMode :: "string \<Rightarrow> string" where
  "addInAppPurchaseSandboxMode content =
     (let m0 = content;
          m1 = (if includesStr content ''BillingClient.Builder''
                then replaceAtEnd ''BillingClient.Builder''
                       ''BillingClient.Builder(context).enablePendingPurchases()'' m0
                else m0);
          m2 = (if includesStr content ''onPurchasesUpdated''
                then (case matchDelimited ''onPurchasesUpdated'' CHR ''{'' m1 of
                        None \<Rightarrow> m1
                      | Some (before, grp, after) \<Rightarrow>
                          before @ ''onPurchasesUpdated'' @ grp @ ''{'' @ mockPurchaseCode @ after)
                else m1)
      in m2)"

definition addPremiumFeaturesUnlock :: "string \<Rightarrow> string" where
  "addPremiumFeaturesUnlock content =
     foldl (\<lambda>modified lit.
              replaceAtEnd lit (''(BuildConfig.DEBUG || '' @ lit @ '')'') modified)
       content
       [''isPremium'', ''hasPremium'', ''isProUser'', ''isPaid'', ''hasSubscription'',
        ''isSubscribed'']"

definition addDebugLogging :: "string \<Rightarrow> string" where
  "addDebugLogging content =
     (if \<not> includesStr content ''import android.util.Log;''
      then ''import android.util.Log;\<newline>'' @ content else content)"

definition addSecurityBypassForTesting :: "string \<Rightarrow> string" where
  "addSecurityBypassForTesting content =
     (let m0 = content;
          m1 = (if includesStr content ''RootBeer'' \<or> includesStr content ''isRooted''
                   \<or> includesStr content ''root''
                then replaceAnyAtEnd [''isRooted'', ''checkRootMethod'', ''detectRoot'']
                       (\<lambda>lit. ''(BuildConfig.DEBUG ? false : '' @ lit
                               @ '') // DEV MODE: Root detection bypassed'') m0
                else m0);
          m2 = (if includesStr content ''license'' \<or> includesStr content ''License''
                then replaceAnyAtEnd [''checkLicense'', ''isLicenseValid'', ''validateLicense'']
                       (\<lambda>lit. ''(BuildConfig.DEBUG ? true : '' @ lit
                               @ '') // DEV MODE: License check bypassed'') m1
                else m1)
      in m2)"

text \<open>The transforms of one source file, in the order of the loop body.\<close>

definition processSourceFile :: "string \<Rightarrow> string" where
  "processSourceFile content =
     (let m0 = content;
          m1 = (if containsBillingCode content then addInAppPurchaseSandboxMode m0 else m0);
          m2 = addPremiumFeaturesUnlock m1;
          m3 = (if includesStr content ''class '' \<and> \<not> includesStr content ''Log.d(''
                then addDebugLogging m2 else m2);
          m4 = addSecurityBypassForTesting m3
      in m4)"

text \<open>
  \<^verbatim>\<open>path.relative(from, to)\<close> for two normalised paths that are both absolute or both
  relative to the working directory: the segments they share at the front are dropped,
  and one \<^verbatim>\<open>..\<close> leads out of each remaining segment of \<open>from\<close>.
\<close>

fun commonPrefixLength :: "string list \<Rightarrow> string list \<Rightarrow> nat" where
  "commonPrefixLength (x # xs) (y # ys) = (if x = y then Suc (commonPrefixLength xs ys) else 0)"
| "commonPrefixLength xs ys = 0"

definition relative :: "string \<Rightarrow> string \<Rightarrow> string" where
  "relative from to =
     (let f = segments from; t = segments to; k = commonPrefixLength f t
      in joinWith ''/'' (replicate (length f - k) ''..'' @ drop k t))"

text \<open>
  \<^verbatim>\<open>processSourceFilesForDevMode\<close>: what it appends to the archive, a name and a text
  per source file. (The files of the extraction directory can be read, so the
  \<^verbatim>\<open>catch\<close> that adds a file unprocessed is never entered.)
\<close>

definition processSourceFilesForDevMode :: "string \<Rightarrow> node option \<Rightarrow> (string \<times> string) list" where
  "processSourceFilesForDevMode dir scratch =
     map (\<lambda>(file, content). (relative dir file, processSourceFile content))
       (findFiles scratch dir [''.java'', ''.kt'', ''.smali''])"

subsection \<open>The other files\<close>

text \<open>
  \<^verbatim>\<open>addRemainingFiles\<close>: \<open>addDirectory\<close> walks the directory in order and hands every file
  to the archive under its path below the extraction directory, except the files whose
  name ends in \<^verbatim>\<open>.java\<close>, \<^verbatim>\<open>.kt\<close> or \<^verbatim>\<open>.smali\<close> and the files named
  \<^verbatim>\<open>AndroidManifest.xml\<close>. The result is the list of archive entries, name and content.
  (The full path, which the source passes along to read the file, is left out: the
  content is at hand in the tree.)
\<close>

definition archiveItemPath :: "string \<Rightarrow> string \<Rightarrow> string" where
  "archiveItemPath archivePath item =
     (if archivePath \<noteq> [] then path_join [archivePath, item] else item)"

fun addDirectory :: "string \<Rightarrow> node \<Rightarrow> (string \<times> string) list"
  and addItems :: "string \<Rightarrow> (string \<times> node) list \<Rightarrow> (string \<times> string) list"
where
  "addDirectory archivePath (File c) = []"
| "addDirectory archivePath (Dir items) = addItems archivePath items"
| "addItems archivePath [] = []"
| "addItems archivePath ((item, Dir sub) # rest) =
     addDirectory (archiveItemPath archivePath item) (Dir sub) @ addItems archivePath rest"
| "addItems archivePath ((item, File c) # rest) =
     (if \<not> endsWith item ''.java'' \<and> \<not> endsWith item ''.kt'' \<and> \<not> endsWith item ''.smali''
         \<and> item \<noteq> ''AndroidManifest.xml''
      then [(archiveItemPath archivePath item, c)]
      else [])
       @ addItems archivePath rest"

definition addRemainingFiles :: "node option \<Rightarrow> (string \<times> string) list" where
  "addRemainingFiles scratch =
     (case scratch of None \<Rightarrow> [] | Some n \<Rightarrow> addDirectory [] n)"

subsection \<open>The archive\<close>

text \<open>
  What the promise of \<^verbatim>\<open>generateDevModeAPK\<close> puts into the archive before
  \<^verbatim>\<open>finalize\<close>, or the error it is rejected with before that: with a manifest, the
  enhanced manifest, the network security configuration, the processed source files
  and the remaining files; without one, the remaining files only. A manifest that
  exists but cannot be read as a file rejects the promise.
\<close>

definition devModeEntries :: "string \<Rightarrow> node option \<Rightarrow> exn + (string \<times> string) list" where
  "devModeEntries dir scratch =
     (case child scratch ''AndroidManifest.xml'' of
        Some (File manifestContent) \<Rightarrow>
          Inr ([(''AndroidManifest.xml'', enhanceManifestForDevMode manifestContent),
                (''res/xml/network_security_config.xml'', createNetworkSecurityConfig)]
               @ processSourceFilesForDevMode dir scratch
               @ addRemainingFiles scratch)
      | Some (Dir items) \<Rightarrow> Inl (Error ''EISDIR'')
      | None \<Rightarrow> Inr (addRemainingFiles scratch))"

text \<open>
  \<^verbatim>\<open>generateDevModeAPK\<close>. \<open>now\<close> is the value of \<^verbatim>\<open>Date.now()\<close> in the name of the
  output file. A failing \<^verbatim>\<open>mkdir\<close> is caught and makes the result \<^verbatim>\<open>null\<close> (\<open>Inr None\<close>);
  an error of the archive or of the output stream rejects the promise (\<open>Inl\<close>), which
  the \<^verbatim>\<open>try\<close> does not catch, since the promise is returned without \<^verbatim>\<open>await\<close>;
  otherwise the archive is written and its path returned.
\<close>

definition generateDevModeAPK :: "'c env \<Rightarrow> analyzer \<Rightarrow> nat \<Rightarrow> 'c disk \<Rightarrow> (exn + string option) \<times> 'c disk" where
  "generateDevModeAPK e a now d =
     (let fixedApkPath =
            path_join [''fixed_apks'',
                       ''dev_mode_'' @ showNat now @ ''_'' @ basename (apkPath a)]
      in if \<not> fixedApksDirExists d \<and> mkdirFails e then (Inr None, d)
         else
           let d1 = d\<lparr>fixedApksDirExists := True\<rparr>
           in case devModeEntries (extractedPath a) (extracted d1) of
                Inl err \<Rightarrow> (Inl err, d1)
              | Inr entries \<Rightarrow>
                  if outputFails e then (Inl (Error ''archive''), d1)
                  else (Inr (Some fixedApkPath),
                        d1\<lparr>files := (files d1)(fixedApkPath \<mapsto> compress e entries)\<rparr>))"

subsection \<open>The original entries of an extraction tree\<close>

text \<open>
  For the statement about repackaging: every file of the tree, with its path below the
  extraction directory, its name and its content, directories first to last in order.
  Nothing is left out here.
\<close>

fun treeFiles :: "string \<Rightarrow> node \<Rightarrow> (string \<times> string \<times> string) list"
  and treeItems :: "string \<Rightarrow> (string \<times> node) list \<Rightarrow> (string \<times> string \<times> string) list"
where
  "treeFiles archivePath (File c) = []"
| "treeFiles archivePath (Dir items) = treeItems archivePath items"
| "treeItems archivePath [] = []"
| "treeItems archivePath ((item, Dir sub) # rest) =
     treeFiles (archiveItemPath archivePath item) (Dir sub) @ treeItems archivePath rest"
| "treeItems archivePath ((item, File c) # rest) =
     (archiveItemPath archivePath item, item, c) # treeItems archivePath rest"

definition originalFiles :: "node option \<Rightarrow> (string \<times> string \<times> string) list" where
  "originalFiles scratch = (case scratch of None \<Rightarrow> [] | Some n \<Rightarrow> treeFiles [] n)"

text \<open>A file name that is neither a processed source file nor the manifest's.\<close>

definition plainFile :: "string \<Rightarrow> bool" where
  "plainFile item \<longleftrightarrow>
     \<not> endsWith item ''.java'' \<and> \<not> endsWith item ''.kt'' \<and> \<not> endsWith item ''.smali''
     \<and> item \<noteq> ''AndroidManifest.xml''"

section \<open>Signer (apk-signer.ts)\<close>

text \<open>
  \<^verbatim>\<open>fs.copyFileSync(src, dst)\<close> and \<^verbatim>\<open>fs.renameSync(src, dst)\<close> on the archive files:
  either throws when the source is missing or the environment makes it fail, and then
  changes nothing.
\<close>

definition copyFileSync :: "'c env \<Rightarrow> string \<Rightarrow> string \<Rightarrow> (string \<rightharpoonup> 'c) \<Rightarrow> exn + (string \<rightharpoonup> 'c)" where
  "copyFileSync e src dst fs =
     (case fs src of
        None \<Rightarrow> Inl (Error ''ENOENT'')
      | Some c \<Rightarrow> if copyFails e src dst then Inl (Error ''copyFileSync'') else Inr (fs(dst \<mapsto> c)))"

definition renameSync :: "'c env \<Rightarrow> string \<Rightarrow> string \<Rightarrow> (string \<rightharpoonup> 'c) \<Rightarrow> exn + (string \<rightharpoonup> 'c)" where
  "renameSync e src dst fs =
     (case fs src of
        None \<Rightarrow> Inl (Error ''ENOENT'')
      | Some c \<Rightarrow> if renameFails e src dst then Inl (Error ''renameSync'')
                  else Inr ((fs(src := None))(dst \<mapsto> c)))"

text \<open>
  \<^verbatim>\<open>alignApk\<close>: the \<^verbatim>\<open>zipalign\<close> command writes the output file; when the command fails,
  the \<^verbatim>\<open>catch\<close> copies the input to the output, and a failure of that copy is thrown on.
\<close>

definition alignApk :: "'c env \<Rightarrow> string \<Rightarrow> string \<Rightarrow> (string \<rightharpoonup> 'c) \<Rightarrow> exn + (string \<rightharpoonup> 'c)" where
  "alignApk e inputPath outputPath fs =
     (case (case fs inputPath of None \<Rightarrow> None | Some c \<Rightarrow> zipalign e c) of
        Some aligned \<Rightarrow> Inr (fs(outputPath \<mapsto> aligned))
      | None \<Rightarrow> copyFileSync e inputPath outputPath fs)"

text \<open>
  The \<^verbatim>\<open>try\<close> block of \<^verbatim>\<open>signApk\<close>. The result is the thrown error or the returned
  path, with the files as they are at that moment. \<^verbatim>\<open>jarsigner\<close> signs the aligned file
  in place.
\<close>

definition signApkBody :: "'c env \<Rightarrow> string \<Rightarrow> (string \<rightharpoonup> 'c) \<Rightarrow> (exn + string) \<times> (string \<rightharpoonup> 'c)" where
  "signApkBody e unsignedApkPath fs =
     (if fs unsignedApkPath = None then (Inl (Error ''Unsigned APK file not found''), fs)
      else
        let signedApkPath = replaceFirst ''.apk'' ''_signed.apk'' unsignedApkPath;
            alignedApkPath = replaceFirst ''.apk'' ''_aligned.apk'' unsignedApkPath
        in case alignApk e unsignedApkPath alignedApkPath fs of
             Inl err \<Rightarrow> (Inl err, fs)
           | Inr fs1 \<Rightarrow>
               (case (if keystoreExists e
                      then (case (case fs1 alignedApkPath of None \<Rightarrow> None
                                  | Some c \<Rightarrow> jarsigner e c) of
                              Some signed \<Rightarrow> Inr (fs1(alignedApkPath \<mapsto> signed))
                            | None \<Rightarrow> copyFileSync e alignedApkPath signedApkPath fs1)
                      else copyFileSync e alignedApkPath signedApkPath fs1) of
                  Inl err \<Rightarrow> (Inl err, fs1)
                | Inr fs2 \<Rightarrow>
                    (if fs2 alignedApkPath \<noteq> None \<and> fs2 signedApkPath = None
                     then (case renameSync e alignedApkPath signedApkPath fs2 of
                             Inl err \<Rightarrow> (Inl err, fs2)
                           | Inr fs3 \<Rightarrow> (Inr signedApkPath, fs3))
                     else (Inr signedApkPath, fs2))))"

text \<open>
  \<^verbatim>\<open>signApk\<close>: the \<^verbatim>\<open>catch\<close> around the body returns the path it was given. The result
  keeps the type of the body, so that a call that throws would show as \<open>Inl\<close>.
\<close>

definition signApk :: "'c env \<Rightarrow> string \<Rightarrow> (string \<rightharpoonup> 'c) \<Rightarrow> (exn + string) \<times> (string \<rightharpoonup> 'c)" where
  "signApk e unsignedApkPath fs =
     (case signApkBody e unsignedApkPath fs of
        (Inl err, fs') \<Rightarrow> (Inr unsignedApkPath, fs')
      | (Inr signedPath, fs') \<Rightarrow> (Inr signedPath, fs'))"

section \<open>Security score (performAnalysis)\<close>

text \<open>
  \<^verbatim>\<open>vulnerabilities.filter((v) => v.severity === s).length\<close>, once per severity.
\<close>

definition severityCount :: "severity \<Rightarrow> Vulnerability list \<Rightarrow> int" where
  "severityCount s vs = int (length (filter (\<lambda>v. severity v = s) vs))"

text \<open>
  The score starts at 100, loses 25, 15, 8 and 3 points per critical, high, medium and
  low finding, and ends with \<^verbatim>\<open>Math.max(0, securityScore)\<close>. The counts are array
  lengths, so every intermediate value is an exact integer.
\<close>

definition securityScore :: "Vulnerability list \<Rightarrow> int" where
  "securityScore vs =
     (let criticalCount = severityCount Critical vs;
          highCount = severityCount High vs;
          mediumCount = severityCount Medium vs;
          lowCount = severityCount Low vs;
          s0 = 100;
          s1 = s0 - criticalCount * 25;
          s2 = s1 - highCount * 15;
          s3 = s2 - mediumCount * 8;
          s4 = s3 - lowCount * 3
      in max 0 s4)"

section \<open>The analysis job (analyzeAPK, performAnalysis)\<close>

text \<open>
  \<^verbatim>\<open>removeDirectory\<close>, with what is left of the directory as the result (\<open>None\<close>: it is
  gone). A file that cannot be unlinked ends the loop of its directory through the
  \<^verbatim>\<open>catch\<close>; a subdirectory that could not be removed entirely is still there when
  \<^verbatim>\<open>rmdirSync\<close> runs, which then throws into the same \<^verbatim>\<open>catch\<close>. Called on something that
  is not a directory, \<^verbatim>\<open>readdirSync\<close> throws and nothing is removed. \<open>fails\<close> tells for
  which paths \<^verbatim>\<open>unlinkSync\<close> or \<^verbatim>\<open>rmdirSync\<close> throws for an outside reason.
\<close>

fun removeDirectory :: "(string \<Rightarrow> bool) \<Rightarrow> string \<Rightarrow> node \<Rightarrow> node option"
  and removeItems :: "(string \<Rightarrow> bool) \<Rightarrow> string \<Rightarrow> (string \<times> node) list \<Rightarrow> (string \<times> node) list"
where
  "removeDirectory fails dirPath (File c) = Some (File c)"
| "removeDirectory fails dirPath (Dir items) =
     (let remaining = removeItems fails dirPath items
      in if remaining = [] \<and> \<not> fails dirPath then None else Some (Dir remaining))"
| "removeItems fails dirPath [] = []"
| "removeItems fails dirPath ((item, File c) # rest) =
     (if fails (path_join [dirPath, item]) then (item, File c) # rest
      else removeItems fails dirPath rest)"
| "removeItems fails dirPath ((item, Dir sub) # rest) =
     (case removeDirectory fails (path_join [dirPath, item]) (Dir sub) of
        None \<Rightarrow> removeItems fails dirPath rest
      | Some n \<Rightarrow> (item, n) # removeItems fails dirPath rest)"

text \<open>\<^verbatim>\<open>cleanup\<close>: the extraction directory is removed if it exists; nothing is thrown.\<close>

definition cleanup :: "'c env \<Rightarrow> analyzer \<Rightarrow> 'c disk \<Rightarrow> 'c disk" where
  "cleanup e a d =
     (case extracted d of
        None \<Rightarrow> d
      | Some n \<Rightarrow> d\<lparr>extracted := removeDirectory (removeFails e) (extractedPath a) n\<rparr>)"

text \<open>
  \<^verbatim>\<open>parseManifest\<close>. The tree the XML parser builds is not modelled: the result is the
  text of the manifest when the parser accepts it, and \<open>None\<close> for \<^verbatim>\<open>{ manifest: null }\<close>
  (no manifest, a manifest that cannot be read, or one the parser rejects).
\<close>

definition parseManifest :: "'c env \<Rightarrow> node option \<Rightarrow> string option" where
  "parseManifest e scratch =
     (case child scratch ''AndroidManifest.xml'' of
        Some (File manifestContent) \<Rightarrow>
          if xmlParses e manifestContent then Some manifestContent else None
      | Some (Dir items) \<Rightarrow> None
      | None \<Rightarrow> None)"

text \<open>
  The object \<^verbatim>\<open>analyzeAPK\<close> returns. The fields \<^verbatim>\<open>analysisResults\<close> and
  \<^verbatim>\<open>vulnerabilities\<close> carry the prefix \<open>result\<close> (the plain names are fields above).
\<close>

record analysis_output =
  resultAnalysisResults :: AnalysisResult
  resultVulnerabilities :: "Vulnerability list"
  packageInfo :: "string option"
  fixedApkPath :: "string option"

text \<open>
  \<^verbatim>\<open>analyzeAPK\<close>, over any registry of detectors. \<open>now\<close> is the time stamp in the name of
  the repackaged archive. Every \<^verbatim>\<open>throw\<close> and every rejected promise inside the \<^verbatim>\<open>try\<close>
  ends in the \<^verbatim>\<open>catch\<close>, which cleans up and throws the error on (\<open>Inl\<close>). When
  repackaging returns a path, the archive is signed, the extraction directory cleaned
  up and the signed path returned. When repackaging returns \<^verbatim>\<open>null\<close>, the result is
  returned at once.
\<close>

definition analyzeAPKWith :: "detector list \<Rightarrow> 'c env \<Rightarrow> nat \<Rightarrow> analyzer \<Rightarrow> 'c disk
    \<Rightarrow> (exn + analysis_output) \<times> 'c disk" where
  "analyzeAPKWith registry e now a d =
     (if apk d = None then (Inl (Error ''APK file not found''), cleanup e a d)
      else
        case extractAPK a d of
          (Some err, d1) \<Rightarrow> (Inl err, cleanup e a d1)
        | (None, d1) \<Rightarrow>
            (let info = parseManifest e (extracted d1);
                 a1 = runAnalyses registry (extracted d1) a
             in case generateDevModeAPK e a1 now d1 of
                  (Inl err, d2) \<Rightarrow> (Inl err, cleanup e a1 d2)
                | (Inr None, d2) \<Rightarrow>
                    (Inr \<lparr>resultAnalysisResults = analysisResults a1,
                          resultVulnerabilities = allVulnerabilities a1,
                          packageInfo = info, fixedApkPath = None\<rparr>, d2)
                | (Inr (Some unsignedPath), d2) \<Rightarrow>
                    (case signApk e unsignedPath (files d2) of
                       (Inl err, fs) \<Rightarrow> (Inl err, cleanup e a1 (d2\<lparr>files := fs\<rparr>))
                     | (Inr signedApkPath, fs) \<Rightarrow>
                         (Inr \<lparr>resultAnalysisResults = analysisResults a1,
                               resultVulnerabilities = allVulnerabilities a1,
                               packageInfo = info, fixedApkPath = Some signedApkPath\<rparr>,
                          cleanup e a1 (d2\<lparr>files := fs\<rparr>)))))"

text \<open>\<^verbatim>\<open>analyzeAPK\<close> runs the registry of the source.\<close>

definition analyzeAPK :: "'c env \<Rightarrow> nat \<Rightarrow> analyzer \<Rightarrow> 'c disk \<Rightarrow> (exn + analysis_output) \<times> 'c disk" where
  "analyzeAPK e now a d = analyzeAPKWith analyses e now a d"

text \<open>
  The record of a job as \<^verbatim>\<open>performAnalysis\<close> leaves it in the store. (The fields read
  from the parsed manifest are left out, and the store itself is taken to work.)
\<close>

datatype job_status = Pending | Analyzing | Completed | JobFailed





section \<open>Occurrences of a text in a text\<close>

text \<open>
  For the statements about the manifest. Two texts overlap when one occurs in the other
  or a non-empty end of one is a beginning of the other: only then can an occurrence of
  the first touch an occurrence of the second without lying beside it.
\<close>

definition border :: "'a list \<Rightarrow> 'a list \<Rightarrow> bool" where
  "border xs ys = list_ex (\<lambda>z. z \<noteq> [] \<and> suffix z xs) (prefixes ys)"

definition overlap :: "'a list \<Rightarrow> 'a list \<Rightarrow> bool" where
  "overlap q r \<longleftrightarrow> sublist q r \<or> sublist r q \<or> border q r \<or> border r q"

text \<open>
  A text has a tag when \<open>lit\<close> occurs in it with the character \<open>c\<close> somewhere after the
  occurrence: the texts in which \<^verbatim>\<open>lit([^c]*)c\<close> has a match.
\<close>

definition tagged :: "string \<Rightarrow> char \<Rightarrow> string \<Rightarrow> bool" where
  "tagged lit c s \<longleftrightarrow> (\<exists>u v. s = u @ lit @ v \<and> c \<in> set v)"

text \<open>
  The line \<^verbatim>\<open>addPermission\<close> puts before the closing tag of the manifest.
\<close>

definition permissionLine :: \<open>string \<Rightarrow> string\<close> where
  \<open>permissionLine permission =
     ''    <uses-permission android:name="'' @ permission @ ''" />\<newline>''\<close>

text \<open>
  The form of a manifest on which \<^verbatim>\<open>enhanceManifestForDevMode\<close> has nothing left to do:
  no attribute is switched off, each of the three attributes is there unless there is
  no application tag to carry it, and each test permission is there unless there is no
  closing tag to put it before.
\<close>

definition enhanced :: \<open>string \<Rightarrow> bool\<close> where
  \<open>enhanced x \<longleftrightarrow>
     \<not> includesStr x ''android:debuggable="false"''
     \<and> (includesStr x ''android:debuggable='' \<or> \<not> tagged ''<application'' CHR ''>'' x)
     \<and> \<not> includesStr x ''android:allowBackup="false"''
     \<and> (includesStr x ''android:allowBackup='' \<or> \<not> tagged ''<application'' CHR ''>'' x)
     \<and> (includesStr x ''android:networkSecurityConfig=''
          \<or> \<not> tagged ''<application'' CHR ''>'' x)
     \<and> list_all (\<lambda>p. includesStr x p \<or> \<not> includesStr x ''</manifest>'') testPermissions\<close>

section \<open>Properties of the security score\<close>

lemma severityCount_nonneg: "0 \<le> severityCount s vs"
  by (simp add: severityCount_def)

lemma severityCount_append:
  "severityCount s (vs @ ws) = severityCount s vs + severityCount s ws"
  by (simp add: severityCount_def)

lemma severityCount_single:
  "severityCount s [v] = (if severity v = s then 1 else 0)"
  by (simp add: severityCount_def)

lemma securityScore_unfold:
  "securityScore vs =
     max 0 (100 - 25 * severityCount Critical vs - 15 * severityCount High vs
                - 8 * severityCount Medium vs - 3 * severityCount Low vs)"
  by (simp add: securityScore_def Let_def algebra_simps)


text \<open>
  Claim C9. Appending one more vulnerability to a list never raises the score, and
  both scores lie between 0 and 100.
\<close>

theorem securityScore_append_le:
  "securityScore (L @ [v]) \<le> securityScore L
   \<and> 0 \<le> securityScore L \<and> securityScore L \<le> 100
   \<and> 0 \<le> securityScore (L @ [v]) \<and> securityScore (L @ [v]) \<le> 100"
proof -
  have bound: "0 \<le> securityScore xs \<and> securityScore xs \<le> 100" for xs
    using severityCount_nonneg [of Critical xs] severityCount_nonneg [of High xs]
      severityCount_nonneg [of Medium xs] severityCount_nonneg [of Low xs]
    by (simp add: securityScore_unfold)
  have "securityScore (L @ [v]) \<le> securityScore L"
    by (cases "severity v")
      (simp_all add: securityScore_unfold severityCount_append severityCount_single)
  with bound [of L] bound [of "L @ [v]"] show ?thesis by simp
qed

section \<open>Properties of the pipeline\<close>

lemma categoryInvariant_checkOf: "categoryInvariant (checkOf d s)"
  by (auto simp: categoryInvariant_def checkOf_def statusOf_def list_ex_iff)

lemma categoryInvariant_fixedCheck: "categoryInvariant (fixedCheck d)"
  by (simp add: categoryInvariant_def fixedCheck_def)

lemma categoryInvariant_empty: "categoryInvariant emptySecurityCheck"
  by (simp add: categoryInvariant_def emptySecurityCheck_def)

lemma runAnalysis_results:
  "analysisResults (runAnalysis scratch a d) =
     (case snd d (extractedPath a) scratch of
        Inl e \<Rightarrow> analysisResults a
      | Inr r \<Rightarrow> (analysisResults a)(fst d := r))"
  by (simp add: runAnalysis_def split: sum.split)

lemma runAnalysis_extractedPath [simp]:
  "extractedPath (runAnalysis scratch a d) = extractedPath a"
  by (simp add: runAnalysis_def split: sum.split)

lemma runAnalyses_Nil [simp]: "runAnalyses [] scratch a = a"
  by (simp add: runAnalyses_def)

lemma runAnalyses_Cons [simp]:
  "runAnalyses (d # ds) scratch a = runAnalyses ds scratch (runAnalysis scratch a d)"
  by (simp add: runAnalyses_def)

lemma runAnalyses_extractedPath [simp]:
  "extractedPath (runAnalyses ds scratch a) = extractedPath a"
  by (induction ds arbitrary: a) simp_all

lemma runAnalyses_preserves:
  assumes "\<And>k. P (analysisResults a k)"
    and "\<And>d r. d \<in> set ds \<Longrightarrow> snd d (extractedPath a) scratch = Inr r \<Longrightarrow> P r"
  shows "P (analysisResults (runAnalyses ds scratch a) k)"
  using assms
proof (induction ds arbitrary: a)
  case Nil
  then show ?case by simp
next
  case (Cons d ds)
  have "P (analysisResults (runAnalysis scratch a d) k')" for k'
    using Cons.prems(1) Cons.prems(2) [of d]
    by (auto simp: runAnalysis_results split: sum.split)
  moreover have "P r" if "d' \<in> set ds" "snd d' (extractedPath (runAnalysis scratch a d)) scratch = Inr r" for d' r
    using that Cons.prems(2) [of d' r] by simp
  ultimately show ?case
    using Cons.IH [of "runAnalysis scratch a d"] by simp
qed

lemma analyses_invariant:
  "d \<in> set analyses \<Longrightarrow> snd d dir scratch = Inr r \<Longrightarrow> categoryInvariant r"
  unfolding analyses_def reconnaissanceCheck_def xssCheck_def
  by (auto simp: categoryInvariant_checkOf categoryInvariant_fixedCheck Let_def)

text \<open>
  Claim C4. Every category result a detector produces satisfies the status invariant:
  the result of the reconnaissance detector, of the cross-site-scripting detector and
  of each fixed detector, and so every entry of the analysis results once the pipeline
  has run on a fresh analyzer.
\<close>

theorem category_status_invariant:
  "categoryInvariant (reconnaissanceCheck scratch)
   \<and> categoryInvariant (xssCheck dir scratch)
   \<and> categoryInvariant (fixedCheck txt)
   \<and> categoryInvariant (analysisResults (runSecurityAnalyses scratch (newAnalyzer path now)) k)"
proof -
  have "categoryInvariant (analysisResults (runAnalyses analyses scratch (newAnalyzer path now)) k)"
    by (rule runAnalyses_preserves)
      (simp_all add: newAnalyzer_def initializeAnalysisResults_def categoryInvariant_empty
        analyses_invariant)
  then show ?thesis
    by (simp add: runSecurityAnalyses_def reconnaissanceCheck_def xssCheck_def Let_def
        categoryInvariant_checkOf categoryInvariant_fixedCheck)
qed

lemma runAnalysis_Inr:
  "runAnalysis scratch a (k, \<lambda>dir fs. Inr (f dir fs)) =
     a\<lparr>analysisResults := (analysisResults a)(k := f (extractedPath a) scratch),
       allVulnerabilities := allVulnerabilities a @ vulnerabilities (f (extractedPath a) scratch)\<rparr>"
  by (simp add: runAnalysis_def)

lemma vulnerabilities_fixedCheck [simp]: "vulnerabilities (fixedCheck d) = []"
  by (simp add: fixedCheck_def)

lemma runSecurityAnalyses_allVulnerabilities:
  "allVulnerabilities (runSecurityAnalyses scratch a) =
     allVulnerabilities a @ vulnerabilities (reconnaissanceCheck scratch)
       @ vulnerabilities (xssCheck (extractedPath a) scratch)"
  by (simp add: runSecurityAnalyses_def analyses_def runAnalysis_Inr)

lemma scanManifest_all:
  assumes \<open>includesStr content ''android:debuggable="true"''\<close>
    and \<open>includesStr content ''android:allowBackup="true"''\<close>
    and \<open>includesStr content ''android:exported="true"''\<close>
    and \<open>\<not> includesStr content ''android:permission=''\<close>
  shows "scanVulnerabilities (scanManifest content) = [recon001, recon002, recon003]"
  using assms by (simp add: scanManifest_def Let_def report_def emptyScan_def)

text \<open>
  Claim C8. When the manifest of the extraction directory contains
  \<^verbatim>\<open>android:debuggable="true"\<close>, \<^verbatim>\<open>android:allowBackup="true"\<close> and
  \<^verbatim>\<open>android:exported="true"\<close> and nowhere \<^verbatim>\<open>android:permission=\<close>, the reconnaissance
  detector yields exactly the three vulnerabilities recon-001, recon-002 and recon-003
  with severities medium, low and high; and when no other detector finds anything
  (the cross-site-scripting detector is the only other one that can), the score of
  the vulnerabilities the pipeline collects is 74.
\<close>

theorem reconnaissance_three_findings:
  assumes \<open>child scratch ''AndroidManifest.xml'' = Some (File content)\<close>
    and \<open>includesStr content ''android:debuggable="true"''\<close>
    and \<open>includesStr content ''android:allowBackup="true"''\<close>
    and \<open>includesStr content ''android:exported="true"''\<close>
    and \<open>\<not> includesStr content ''android:permission=''\<close>
    and \<open>vulnerabilities (xssCheck (extractedPath (newAnalyzer path now)) scratch) = []\<close>
  shows \<open>map id' (vulnerabilities (reconnaissanceCheck scratch)) = [''recon-001'', ''recon-002'', ''recon-003'']
    \<and> map severity (vulnerabilities (reconnaissanceCheck scratch)) = [Medium, Low, High]
    \<and> issueCount (reconnaissanceCheck scratch) = 3
    \<and> securityScore (allVulnerabilities (runSecurityAnalyses scratch (newAnalyzer path now))) = 74\<close>
proof -
  have v: "vulnerabilities (reconnaissanceCheck scratch) = [recon001, recon002, recon003]"
    using assms(1) scanManifest_all [OF assms(2-5)]
    by (simp add: reconnaissanceCheck_def checkOf_def Let_def)
  have n: "issueCount (reconnaissanceCheck scratch) = 3"
    using assms(1) scanManifest_all [OF assms(2-5)]
    by (simp add: reconnaissanceCheck_def checkOf_def Let_def)
  have "allVulnerabilities (runSecurityAnalyses scratch (newAnalyzer path now))
          = [recon001, recon002, recon003]"
    using v assms(6)
    by (simp add: runSecurityAnalyses_allVulnerabilities) (simp add: newAnalyzer_def)
  then have "securityScore (allVulnerabilities (runSecurityAnalyses scratch (newAnalyzer path now))) = 74"
    by (simp add: securityScore_def severityCount_def recon001_def recon002_def recon003_def)
  with v n show ?thesis
    by (simp add: recon001_def recon002_def recon003_def)
qed


lemmas includes_eval = includesStr_def sublist_Cons_right

theorem reconnaissance_three_findings_witness:
  \<open>includesStr ''<application android:debuggable="true" android:allowBackup="true" android:exported="true">''
      ''android:debuggable="true"''
   \<and> includesStr ''<application android:debuggable="true" android:allowBackup="true" android:exported="true">''
      ''android:allowBackup="true"''
   \<and> includesStr ''<application android:debuggable="true" android:allowBackup="true" android:exported="true">''
      ''android:exported="true"''
   \<and> \<not> includesStr ''<application android:debuggable="true" android:allowBackup="true" android:exported="true">''
      ''android:permission=''
   \<and> map severity (vulnerabilities (reconnaissanceCheck
      (Some (Dir [(''AndroidManifest.xml'', File ''<application android:debuggable="true" android:allowBackup="true" android:exported="true">'')]))))
      = [Medium, Low, High]
   \<and> securityScore (allVulnerabilities (runSecurityAnalyses
      (Some (Dir [(''AndroidManifest.xml'', File ''<application android:debuggable="true" android:allowBackup="true" android:exported="true">'')]))
      (newAnalyzer ''uploads/app.apk'' 17))) = 74\<close>
proof -
  let ?m = \<open>''<application android:debuggable="true" android:allowBackup="true" android:exported="true">''\<close>
  let ?fs = \<open>Some (Dir [(''AndroidManifest.xml'', File ?m)])\<close>
  have 1: \<open>child ?fs ''AndroidManifest.xml'' = Some (File ?m)\<close> by simp
  have 2: \<open>includesStr ?m ''android:debuggable="true"''\<close> by (simp add: includes_eval)
  have 3: \<open>includesStr ?m ''android:allowBackup="true"''\<close> by (simp add: includes_eval)
  have 4: \<open>includesStr ?m ''android:exported="true"''\<close> by (simp add: includes_eval)
  have 5: \<open>\<not> includesStr ?m ''android:permission=''\<close> by (simp add: includes_eval)
  have 6: \<open>vulnerabilities (xssCheck (extractedPath (newAnalyzer ''uploads/app.apk'' 17)) ?fs) = []\<close>
    by (simp add: xssCheck_def findFiles_def endsWith_def suffix_to_prefix checkOf_def emptyScan_def)
  show ?thesis
    using reconnaissance_three_findings [OF 1 2 3 4 5 6] 2 3 4 5 by simp
qed

section \<open>Properties of the signer\<close>

lemma copyFileSync_Inr:
  "copyFileSync e src dst fs = Inr fs' \<Longrightarrow> \<exists>c. fs src = Some c \<and> fs' = fs(dst \<mapsto> c)"
  by (auto simp: copyFileSync_def split: option.splits if_splits)

lemma renameSync_Inr:
  "renameSync e src dst fs = Inr fs' \<Longrightarrow> \<exists>c. fs src = Some c \<and> fs' = (fs(src := None))(dst \<mapsto> c)"
  by (auto simp: renameSync_def split: option.splits if_splits)

lemma alignApk_Inr:
  "alignApk e i out fs = Inr fs' \<Longrightarrow> \<exists>c. fs' = fs(out \<mapsto> c)"
  by (auto simp: alignApk_def dest: copyFileSync_Inr split: option.splits)

lemma signApkBody_Inr:
  assumes "signApkBody e p fs = (Inr q, fs')"
  shows "q = replaceFirst ''.apk'' ''_signed.apk'' p \<and> fs' q \<noteq> None"
  using assms
  by (auto simp: signApkBody_def Let_def
      split: if_splits sum.splits option.splits
      dest!: copyFileSync_Inr renameSync_Inr alignApk_Inr)

lemma signApkBody_Inl:
  assumes "signApkBody e p fs = (Inl err, fs')" and "fs p \<noteq> None"
  shows "fs' p \<noteq> None"
  using assms
  by (auto simp: signApkBody_def Let_def
      split: if_splits sum.splits option.splits
      dest!: copyFileSync_Inr renameSync_Inr alignApk_Inr)

text \<open>
  Claim C7. For every path, every state of the files and every behaviour of the tools,
  \<^verbatim>\<open>signApk\<close> returns and never throws: its result is the path it was given or the
  signed path, and when the input file exists the returned path names an existing
  archive file. When \<^verbatim>\<open>zipalign\<close> fails, \<^verbatim>\<open>alignApk\<close> falls back to a copy of the
  input, byte for byte (unless the copy itself fails). When the keystore is missing or
  \<^verbatim>\<open>jarsigner\<close> fails, the aligned unsigned file is copied to the signed path, which is
  returned as the deliverable (unless that copy fails, in which case the first part
  applies: the input path is returned).
\<close>

theorem signApk_never_raises:
  "(\<exists>q fs'. signApk e p fs = (Inr q, fs')
       \<and> (q = p \<or> q = replaceFirst ''.apk'' ''_signed.apk'' p)
       \<and> (fs p \<noteq> None \<longrightarrow> fs' q \<noteq> None))
   \<and> (fs p = Some c \<and> zipalign e c = None \<and> \<not> copyFails e p out
        \<longrightarrow> alignApk e p out fs = Inr (fs(out \<mapsto> c)))
   \<and> (fs p \<noteq> None
        \<and> alignApk e p (replaceFirst ''.apk'' ''_aligned.apk'' p) fs = Inr fs1
        \<and> fs1 (replaceFirst ''.apk'' ''_aligned.apk'' p) = Some a
        \<and> (\<not> keystoreExists e \<or> jarsigner e a = None)
        \<and> \<not> copyFails e (replaceFirst ''.apk'' ''_aligned.apk'' p)
               (replaceFirst ''.apk'' ''_signed.apk'' p)
        \<longrightarrow> signApk e p fs
              = (Inr (replaceFirst ''.apk'' ''_signed.apk'' p),
                 fs1(replaceFirst ''.apk'' ''_signed.apk'' p \<mapsto> a)))"
proof (intro conjI impI)
  obtain r fs' where body: "signApkBody e p fs = (r, fs')"
    by (cases "signApkBody e p fs")
  show "\<exists>q fs'. signApk e p fs = (Inr q, fs')
       \<and> (q = p \<or> q = replaceFirst ''.apk'' ''_signed.apk'' p)
       \<and> (fs p \<noteq> None \<longrightarrow> fs' q \<noteq> None)"
  proof (cases r)
    case (Inl err)
    with body signApkBody_Inl [of e p fs err fs'] show ?thesis
      by (auto simp: signApk_def)
  next
    case (Inr q)
    with body signApkBody_Inr [of e p fs q fs'] show ?thesis
      by (auto simp: signApk_def)
  qed
next
  assume "fs p = Some c \<and> zipalign e c = None \<and> \<not> copyFails e p out"
  then show "alignApk e p out fs = Inr (fs(out \<mapsto> c))"
    by (simp add: alignApk_def copyFileSync_def)
next
  let ?al = "replaceFirst ''.apk'' ''_aligned.apk'' p"
  let ?sg = "replaceFirst ''.apk'' ''_signed.apk'' p"
  assume h: "fs p \<noteq> None \<and> alignApk e p ?al fs = Inr fs1 \<and> fs1 ?al = Some a
        \<and> (\<not> keystoreExists e \<or> jarsigner e a = None) \<and> \<not> copyFails e ?al ?sg"
  then have "signApkBody e p fs = (Inr ?sg, fs1(?sg \<mapsto> a))"
    by (auto simp: signApkBody_def Let_def copyFileSync_def)
  then show "signApk e p fs = (Inr ?sg, fs1(?sg \<mapsto> a))"
    by (simp add: signApk_def)
qed


theorem signApk_never_raises_witness:
  "signApk
     \<lparr>mkdirFails = False, outputFails = False, compress = (\<lambda>entries. ''zip''),
      keystoreExists = True, zipalign = (\<lambda>c. None), jarsigner = (\<lambda>c. None),
      copyFails = (\<lambda>src dst. False), renameFails = (\<lambda>src dst. False),
      removeFails = (\<lambda>path. False), xmlParses = (\<lambda>t. True)\<rparr>
     ''fixed_apks/dev_mode_1_a.apk''
     [''fixed_apks/dev_mode_1_a.apk'' \<mapsto> ''zip'']
   = (Inr ''fixed_apks/dev_mode_1_a_signed.apk'',
      [''fixed_apks/dev_mode_1_a.apk'' \<mapsto> ''zip'',
       ''fixed_apks/dev_mode_1_a_aligned.apk'' \<mapsto> ''zip'',
       ''fixed_apks/dev_mode_1_a_signed.apk'' \<mapsto> ''zip''])"
proof -
  let ?e = "\<lparr>mkdirFails = False, outputFails = False, compress = (\<lambda>entries. ''zip''),
      keystoreExists = True, zipalign = (\<lambda>c. None), jarsigner = (\<lambda>c. None),
      copyFails = (\<lambda>src dst. False), renameFails = (\<lambda>src dst. False),
      removeFails = (\<lambda>path. False), xmlParses = (\<lambda>t. True)\<rparr> :: string env"
  let ?p = "''fixed_apks/dev_mode_1_a.apk''"
  let ?fs = "[?p \<mapsto> ''zip'']"
  have al: "replaceFirst ''.apk'' ''_aligned.apk'' ?p = ''fixed_apks/dev_mode_1_a_aligned.apk''"
    by simp
  have sg: "replaceFirst ''.apk'' ''_signed.apk'' ?p = ''fixed_apks/dev_mode_1_a_signed.apk''"
    by simp
  have 1: "?fs ?p = Some ''zip'' \<and> zipalign ?e ''zip'' = None
      \<and> \<not> copyFails ?e ?p ''fixed_apks/dev_mode_1_a_aligned.apk''"
    by simp
  from signApk_never_raises [of ?e ?p ?fs "''zip''" "''fixed_apks/dev_mode_1_a_aligned.apk''"
      "?fs(''fixed_apks/dev_mode_1_a_aligned.apk'' \<mapsto> ''zip'')" "''zip''"]
  have 2: "alignApk ?e ?p ''fixed_apks/dev_mode_1_a_aligned.apk'' ?fs
      = Inr (?fs(''fixed_apks/dev_mode_1_a_aligned.apk'' \<mapsto> ''zip''))"
    using 1 by blast
  from signApk_never_raises [of ?e ?p ?fs "''zip''" "''fixed_apks/dev_mode_1_a_aligned.apk''"
      "?fs(''fixed_apks/dev_mode_1_a_aligned.apk'' \<mapsto> ''zip'')" "''zip''"]
  show ?thesis
    unfolding al sg using 2 by simp
qed

section \<open>Properties of extraction\<close>

lemma splitOn_ne [simp]: "splitOn c s \<noteq> []"
  by (induction s) (auto split: list.splits)

lemma splitOn_sep_free: "x \<in> set (splitOn c s) \<Longrightarrow> c \<notin> set x"
  by (induction s arbitrary: x) (auto split: list.splits if_splits)

lemma splitOn_append: "splitOn c (a @ c # b) = splitOn c a @ splitOn c b"
proof (induction a)
  case Nil
  then show ?case by simp
next
  case (Cons x a)
  obtain y ys where "splitOn c a = y # ys"
    using splitOn_ne [of c a] by (cases "splitOn c a") auto
  with Cons show ?case by simp
qed

lemma splitOn_no_sep: "c \<notin> set x \<Longrightarrow> splitOn c x = [x]"
  by (induction x) auto

lemma splitOn_joinWith:
  "segs \<noteq> [] \<Longrightarrow> \<forall>x \<in> set segs. c \<notin> set x \<Longrightarrow> splitOn c (joinWith [c] segs) = segs"
proof (induction "[c]" segs rule: joinWith.induct)
  case 1
  then show ?case by simp
next
  case (2 x)
  then show ?case by (simp add: splitOn_no_sep)
next
  case (3 x y ys)
  then show ?case by (simp add: splitOn_append splitOn_no_sep)
qed

lemma normalizeString_append:
  "normalizeString al res (xs @ ys) = normalizeString al (normalizeString al res xs) ys"
  by (induction xs arbitrary: res) auto

lemma normalizeString_no_dotdot:
  "''..'' \<notin> set xs \<Longrightarrow>
   normalizeString al res xs = res @ filter (\<lambda>s. s \<noteq> [] \<and> s \<noteq> ''.'') xs"
  by (induction xs arbitrary: res) auto

lemma nf_Nil [simp]: "nf al []"
  by (simp add: nf_def)

lemma nfI:
  assumes "\<And>s. s \<in> set res \<Longrightarrow> s \<noteq> [] \<and> s \<noteq> ''.'' \<and> CHR ''/'' \<notin> set s"
    and "res = replicate k ''..'' @ rest" and "''..'' \<notin> set rest" and "\<not> al \<Longrightarrow> k = 0"
  shows "nf al res"
  unfolding nf_def using assms by blast

lemma nf_step:
  assumes "nf al res" and "CHR ''/'' \<notin> set seg"
  shows "nf al (normalizeString al res [seg])"
proof -
  from assms(1) obtain k rest where
    el: "\<And>s. s \<in> set res \<Longrightarrow> s \<noteq> [] \<and> s \<noteq> ''.'' \<and> CHR ''/'' \<notin> set s"
    and res: "res = replicate k ''..'' @ rest" and rest: "''..'' \<notin> set rest" and k: "\<not> al \<Longrightarrow> k = 0"
    unfolding nf_def by blast
  consider (skip) "seg = [] \<or> seg = ''.''" | (up) "seg = ''..''" | (push) "seg \<noteq> []" "seg \<noteq> ''.''" "seg \<noteq> ''..''"
    by blast
  then show ?thesis
  proof cases
    case skip
    then have "normalizeString al res [seg] = res" by auto
    then show ?thesis using assms(1) by simp
  next
    case push
    then have eq: "normalizeString al res [seg] = res @ [seg]"
      by simp
    show ?thesis
    proof (rule nfI [where k = k and rest = "rest @ [seg]"])
      fix s assume "s \<in> set (normalizeString al res [seg])"
      then have "s \<in> set (res @ [seg])" unfolding eq .
      then have "s \<in> set res \<or> s = seg" by auto
      then show "s \<noteq> [] \<and> s \<noteq> ''.'' \<and> CHR ''/'' \<notin> set s"
        using el push assms(2) by blast
    next
      show "normalizeString al res [seg] = replicate k ''..'' @ rest @ [seg]"
        unfolding eq by (simp add: res)
      show "''..'' \<notin> set (rest @ [seg])" using rest push by simp
      show "\<not> al \<Longrightarrow> k = 0" by (rule k)
    qed
  next
    case up
    show ?thesis
    proof (cases "rest = []")
      case True
      then have r: "res = replicate k ''..''" by (simp add: res)
      then have l: "res \<noteq> [] \<Longrightarrow> last res = ''..''" by (cases k) simp_all
      show ?thesis
      proof (cases al)
        case True
        have eq: "normalizeString al res [seg] = res @ [''..'']"
          using up l True by (cases "res = []") simp_all
        show ?thesis
        proof (rule nfI [where k = "Suc k" and rest = "[]"])
          fix s assume "s \<in> set (normalizeString al res [seg])"
          then have "s \<in> set (res @ [''..''])" unfolding eq .
          then have "s \<in> set res \<or> s = ''..''" by auto
          then show "s \<noteq> [] \<and> s \<noteq> ''.'' \<and> CHR ''/'' \<notin> set s"
            using el by auto
        next
          show "normalizeString al res [seg] = replicate (Suc k) ''..'' @ []"
            unfolding eq by (simp add: r replicate_append_same)
          show "''..'' \<notin> set []" by simp
          show "\<not> al \<Longrightarrow> Suc k = 0" using True by simp
        qed
      next
        case False
        have "normalizeString al res [seg] = res"
          using up l False by (cases "res = []") simp_all
        then show ?thesis using assms(1) by simp
      qed
    next
      case False
      from False rest have "last rest \<noteq> ''..''" by (metis last_in_set)
      with False have ne: "res \<noteq> []" and l: "last res \<noteq> ''..''"
        by (simp_all add: res)
      then have eq: "normalizeString al res [seg] = butlast res"
        using up by simp
      show ?thesis
      proof (rule nfI [where k = k and rest = "butlast rest"])
        fix s assume "s \<in> set (normalizeString al res [seg])"
        then have "s \<in> set (butlast res)" unfolding eq .
        then have "s \<in> set res" by (rule in_set_butlastD)
        then show "s \<noteq> [] \<and> s \<noteq> ''.'' \<and> CHR ''/'' \<notin> set s" by (rule el)
      next
        show "normalizeString al res [seg] = replicate k ''..'' @ butlast rest"
          unfolding eq using False by (simp add: res butlast_append)
        show "''..'' \<notin> set (butlast rest)" using rest by (meson in_set_butlastD)
        show "\<not> al \<Longrightarrow> k = 0" by (rule k)
      qed
    qed
  qed
qed

lemma nf_normalizeString:
  "nf al res \<Longrightarrow> \<forall>s \<in> set xs. CHR ''/'' \<notin> set s \<Longrightarrow> nf al (normalizeString al res xs)"
proof (induction xs arbitrary: res)
  case Nil
  then show ?case by simp
next
  case (Cons x xs)
  have "normalizeString al res (x # xs) = normalizeString al (normalizeString al res [x]) xs"
    using normalizeString_append [of al res "[x]" xs] by simp
  with Cons nf_step [of al res x] show ?case by simp
qed

lemma normalizeString_dotdot_step:
  assumes al
  shows "normalizeString al (replicate j ''..'') (''..'' # xs)
       = normalizeString al (replicate (Suc j) ''..'') xs"
proof -
  have "\<not> (replicate j ''..'' \<noteq> [] \<and> last (replicate j ''..'') \<noteq> ''..'')"
    by (cases j) simp_all
  moreover have "replicate j ''..'' @ [''..''] = replicate (Suc j) ''..''"
    by (simp add: replicate_append_same)
  ultimately show ?thesis
    using assms by (auto simp del: replicate_Suc replicate.simps)
qed

lemma normalizeString_dotdots:
  "al \<Longrightarrow> normalizeString al (replicate j ''..'') (replicate k ''..'') = replicate (j + k) ''..''"
proof (induction k arbitrary: j)
  case 0
  then show ?case by simp
next
  case (Suc k)
  have "normalizeString al (replicate j ''..'') (replicate (Suc k) ''..'')
      = normalizeString al (replicate (Suc j) ''..'') (replicate k ''..'')"
    using normalizeString_dotdot_step [OF Suc.prems, of j "replicate k ''..''"] by simp
  also have "\<dots> = replicate (Suc j + k) ''..''"
    by (rule Suc.IH [OF Suc.prems])
  finally show ?case by simp
qed

lemma nf_idem: 
  assumes "nf al res" shows "normalizeString al [] res = res"
proof -
  from assms obtain k rest where
    el: "\<forall>s \<in> set res. s \<noteq> [] \<and> s \<noteq> ''.'' \<and> CHR ''/'' \<notin> set s"
    and res: "res = replicate k ''..'' @ rest" and rest: "''..'' \<notin> set rest" and k: "\<not> al \<longrightarrow> k = 0"
    by (auto simp: nf_def)
  have 1: "normalizeString al [] (replicate k ''..'') = replicate k ''..''"
    using k normalizeString_dotdots [of al 0 k] by (cases al) auto
  have "filter (\<lambda>s. s \<noteq> [] \<and> s \<noteq> ''.'') rest = rest"
    using el by (auto simp: res filter_id_conv)
  then show ?thesis
    by (simp add: res normalizeString_append 1 normalizeString_no_dotdot [OF rest])
qed

lemma joinWith_hd:
  "res \<noteq> [] \<Longrightarrow> hd res \<noteq> [] \<Longrightarrow> joinWith sep res \<noteq> [] \<and> hd (joinWith sep res) = hd (hd res)"
  by (induction sep res rule: joinWith.induct) auto

lemma joinWith_last:
  "res \<noteq> [] \<Longrightarrow> last res \<noteq> [] \<Longrightarrow>
   joinWith sep res \<noteq> [] \<and> last (joinWith sep res) = last (last res)"
  by (induction sep res rule: joinWith.induct) auto

lemma splitOn_snoc: "splitOn c (x @ [c]) = splitOn c x @ [[]]"
  using splitOn_append [of c x "[]"] by simp

lemma segments_form:
  assumes "res \<noteq> []" and "\<forall>s \<in> set res. s \<noteq> [] \<and> CHR ''/'' \<notin> set s"
    and "pre = [] \<or> pre = ''/''" and "post = [] \<or> post = ''/''"
  shows "segments (pre @ joinWith ''/'' res @ post) = res"
proof -
  have j: "splitOn CHR ''/'' (joinWith ''/'' res) = res"
    using assms(1,2) by (simp add: splitOn_joinWith)
  have f: "filter (\<lambda>s. s \<noteq> []) res = res"
    using assms(2) by (simp add: filter_id_conv)
  have "splitOn CHR ''/'' (joinWith ''/'' res @ post) = res @ (if post = [] then [] else [[]])"
    using assms(4) j splitOn_snoc [of "CHR ''/''" "joinWith ''/'' res"] by auto
  then have "splitOn CHR ''/'' (pre @ joinWith ''/'' res @ post)
      = (if pre = [] then [] else [[]]) @ res @ (if post = [] then [] else [[]])"
    using assms(3) by auto
  then show ?thesis
    by (simp add: segments_def f)
qed

lemma isAbsolute_form:
  assumes "res \<noteq> []" and "\<forall>s \<in> set res. s \<noteq> [] \<and> CHR ''/'' \<notin> set s"
    and "pre = [] \<or> pre = ''/''"
  shows "isAbsolute (pre @ joinWith ''/'' res @ post) \<longleftrightarrow> pre = ''/''"
proof -
  have "hd res \<noteq> []" and "CHR ''/'' \<notin> set (hd res)" using assms(1,2) by auto
  then have "hd (hd res) \<noteq> CHR ''/''" by (metis list.set_sel(1))
  with joinWith_hd [of res "''/''"] assms(1) \<open>hd res \<noteq> []\<close>
  have "joinWith ''/'' res \<noteq> []" "hd (joinWith ''/'' res) \<noteq> CHR ''/''" by auto
  then show ?thesis
    using assms(3) by (cases "joinWith ''/'' res") (auto simp: isAbsolute_def)
qed

lemma normalize_form:
  assumes "path \<noteq> []"
    and "normalizeString (hd path \<noteq> CHR ''/'') [] (splitOn CHR ''/'' path) = p" and "p \<noteq> []"
    and "\<forall>s \<in> set p. s \<noteq> [] \<and> CHR ''/'' \<notin> set s"
  shows "normalize path = (if hd path = CHR ''/'' then ''/'' else []) @ joinWith ''/'' p
           @ (if last path = CHR ''/'' then ''/'' else [])"
proof -
  have "hd p \<noteq> []" using assms(3,4) by auto
  then have "joinWith ''/'' p \<noteq> []"
    using joinWith_hd [of p "''/''"] assms(3) by simp
  then show ?thesis
    using assms(1,2) by (simp add: normalize_def Let_def)
qed

lemma rootForm_facts:
  assumes "rootForm dir pre res"
  shows "dir \<noteq> []" and "hd dir = CHR ''/'' \<longleftrightarrow> pre = ''/''" and "last dir \<noteq> CHR ''/''"
    and "splitOn CHR ''/'' dir = (if pre = [] then [] else [[]]) @ res"
    and "segments dir = res" and "isAbsolute dir \<longleftrightarrow> pre = ''/''"
proof -
  from assms have dir: "dir = pre @ joinWith ''/'' res" and pre: "pre = [] \<or> pre = ''/''"
    and ne: "res \<noteq> []" and n: "nf (pre = []) res"
    by (simp_all add: rootForm_def)
  from n have el: "\<forall>s \<in> set res. s \<noteq> [] \<and> CHR ''/'' \<notin> set s"
    by (auto simp: nf_def)
  have h: "hd res \<noteq> []" "CHR ''/'' \<notin> set (hd res)" using ne el by auto
  then have hh: "hd (hd res) \<noteq> CHR ''/''" by (metis list.set_sel(1))
  have l: "last res \<noteq> []" "CHR ''/'' \<notin> set (last res)" using ne el by auto
  then have ll: "last (last res) \<noteq> CHR ''/''" by (metis last_in_set)
  have j: "joinWith ''/'' res \<noteq> []" "hd (joinWith ''/'' res) \<noteq> CHR ''/''"
    using joinWith_hd [of res "''/''"] ne h hh by auto
  have jl: "last (joinWith ''/'' res) \<noteq> CHR ''/''"
    using joinWith_last [of res "''/''"] ne l ll by auto
  show "dir \<noteq> []" using j by (simp add: dir)
  show "hd dir = CHR ''/'' \<longleftrightarrow> pre = ''/''" using pre j by (auto simp: dir)
  show "last dir \<noteq> CHR ''/''" using j jl by (simp add: dir)
  show "splitOn CHR ''/'' dir = (if pre = [] then [] else [[]]) @ res"
    using pre el ne by (auto simp: dir splitOn_joinWith)
  show "segments dir = res"
    using segments_form [of res pre "[]"] ne el pre by (simp add: dir)
  show "isAbsolute dir \<longleftrightarrow> pre = ''/''"
    using isAbsolute_form [of res pre "[]"] ne el pre by (simp add: dir)
qed

lemma normalize_under:
  assumes r: "rootForm dir pre res" and xs: "''..'' \<notin> set xs" "\<forall>s \<in> set xs. CHR ''/'' \<notin> set s"
    and path: "path \<noteq> []" "hd path = hd dir" "splitOn CHR ''/'' path = splitOn CHR ''/'' dir @ xs"
  shows "pathUnder dir (normalize path) = Some (filter (\<lambda>s. s \<noteq> [] \<and> s \<noteq> ''.'') xs)"
proof -
  let ?F = "filter (\<lambda>s. s \<noteq> [] \<and> s \<noteq> ''.'') xs"
  note f = rootForm_facts [OF r]
  from r have n: "nf (pre = []) res" and pre: "pre = [] \<or> pre = ''/''" and ne: "res \<noteq> []"
    by (simp_all add: rootForm_def)
  have al: "(hd path \<noteq> CHR ''/'') = (pre = [])"
    using f(2) pre path(2) by auto
  have "normalizeString (pre = []) [] (splitOn CHR ''/'' dir) = res"
    using nf_idem [OF n] by (auto simp: f(4))
  then have p: "normalizeString (hd path \<noteq> CHR ''/'') [] (splitOn CHR ''/'' path) = res @ ?F"
    by (simp add: al path(3) normalizeString_append normalizeString_no_dotdot [OF xs(1)])
  have el: "\<forall>s \<in> set (res @ ?F). s \<noteq> [] \<and> CHR ''/'' \<notin> set s"
    using n xs(2) by (auto simp: nf_def)
  have form: "normalize path = pre @ joinWith ''/'' (res @ ?F)
      @ (if last path = CHR ''/'' then ''/'' else [])"
    using normalize_form [OF path(1) p _ el] ne al pre by auto
  have ne2: "res @ ?F \<noteq> []" using ne by simp
  have post: "(if last path = CHR ''/'' then ''/'' else []) = []
      \<or> (if last path = CHR ''/'' then ''/'' else []) = ''/''" by simp
  have s: "segments (normalize path) = res @ ?F"
    unfolding form by (rule segments_form [OF ne2 el pre post])
  have a: "isAbsolute (normalize path) \<longleftrightarrow> pre = ''/''"
    unfolding form by (rule isAbsolute_form [OF ne2 el pre])
  have "''..'' \<notin> set ?F" using xs(1) by simp
  then show ?thesis
    unfolding pathUnder_def Let_def s a f(5) f(6) by simp
qed

lemma path_join_under:
  assumes r: "rootForm dir pre res" and f: "''..'' \<notin> set (splitOn CHR ''/'' f)"
  shows "pathUnder dir (path_join [dir, f])
       = Some (filter (\<lambda>s. s \<noteq> [] \<and> s \<noteq> ''.'') (splitOn CHR ''/'' f))"
proof (cases "f = []")
  case True
  note fs = rootForm_facts [OF r]
  have "pathUnder dir (normalize dir) = Some (filter (\<lambda>s. s \<noteq> [] \<and> s \<noteq> ''.'') [])"
    by (rule normalize_under [OF r]) (simp_all add: fs(1))
  then show ?thesis using True fs(1) by (simp add: path_join_def)
next
  case False
  note fs = rootForm_facts [OF r]
  have j: "path_join [dir, f] = normalize (dir @ CHR ''/'' # f)"
    using False fs(1) by (simp add: path_join_def)
  show ?thesis
    unfolding j
    by (rule normalize_under [OF r f])
      (use fs(1) in \<open>auto simp: splitOn_append dest: splitOn_sep_free\<close>)
qed

lemma digit_not_slash: "char_of (48 + (d::nat) mod 10) \<noteq> CHR ''/''"
proof
  assume a: "char_of (48 + d mod 10) = CHR ''/''"
  have 1: "(of_char (char_of (48 + d mod 10) :: char) :: nat) = (48 + d mod 10) mod 256"
    by (rule of_char_of)
  have 2: "(of_char CHR ''/'' :: nat) = 47" by simp
  have 3: "48 + d mod 10 < (256::nat)"
    using mod_less_divisor [of 10 d] by linarith
  from 1 have "(of_char (char_of (48 + d mod 10) :: char) :: nat) = 48 + d mod 10"
    using 3 by (simp only: mod_less)
  with a 2 have "48 + d mod 10 = (47::nat)" by (simp only:)
  then show False by linarith
qed

lemma showNat_lt: "n < 10 \<Longrightarrow> showNat n = [char_of (48 + n mod 10)]"
  by (subst showNat.simps) (simp only: if_True mod_less)

lemma showNat_ge: "\<not> n < 10 \<Longrightarrow> showNat n = showNat (n div 10) @ [char_of (48 + n mod 10)]"
  by (subst showNat.simps) (simp only: if_False)

lemma showNat_no_slash: "CHR ''/'' \<notin> set (showNat n)"
proof (induction n rule: showNat.induct)
  case (1 n)
  show ?case
  proof (cases "n < 10")
    case True
    show ?thesis
      unfolding showNat_lt [OF True] using digit_not_slash [of n] by simp
  next
    case False
    show ?thesis
      unfolding showNat_ge [OF False] using 1 [OF False] digit_not_slash [of n] by simp
  qed
qed

lemma dirname_ne: "dirname path \<noteq> []"
proof (cases "path = []")
  case True
  then show ?thesis by (simp add: dirname_def)
next
  case False
  define b where "b = dropWhile (\<lambda>c. c \<noteq> CHR ''/'') (dropWhile (\<lambda>c. c = CHR ''/'') (rev (tl path)))"
  have "dirname path = (if b = [] then (if hd path = CHR ''/'' then ''/'' else ''.'')
           else if hd path = CHR ''/'' \<and> length b = 1 then ''//''
           else take (length b) path)"
    unfolding dirname_def Let_def b_def using False by (simp only: if_False)
  moreover have "b \<noteq> [] \<Longrightarrow> take (length b) path \<noteq> []"
    using False by simp
  ultimately show ?thesis by (cases "b = []") (simp_all split: if_splits)
qed

lemma extractedPath_rootForm:
  "\<exists>pre res. rootForm (extractedPath (newAnalyzer path now)) pre res"
proof -
  let ?d = "dirname path"
  let ?E = "''extracted_'' @ showNat now"
  let ?X = "?d @ CHR ''/'' # ?E"
  let ?al = "hd ?X \<noteq> CHR ''/''"
  let ?q = "normalizeString ?al [] (splitOn CHR ''/'' ?d)"
  let ?pre = "if hd ?X = CHR ''/'' then ''/'' else []"
  have E: "CHR ''/'' \<notin> set ?E" using showNat_no_slash [of now] by simp
  have Ene: "?E \<noteq> []" "?E \<noteq> ''.''" "?E \<noteq> ''..''" by simp_all
  have root: "extractedPath (newAnalyzer path now) = normalize ?X"
    using dirname_ne [of path] by (simp add: newAnalyzer_def path_join_def)
  have split: "splitOn CHR ''/'' ?X = splitOn CHR ''/'' ?d @ [?E]"
    using E by (simp add: splitOn_append splitOn_no_sep del: append.simps)
  have "normalizeString ?al ?q [?E] = ?q @ [?E]"
    using Ene by (simp del: append.simps)
  then have p: "normalizeString ?al [] (splitOn CHR ''/'' ?X) = ?q @ [?E]"
    by (simp only: split normalizeString_append)
  have sf: "\<forall>s \<in> set (splitOn CHR ''/'' ?X). CHR ''/'' \<notin> set s"
    by (auto dest: splitOn_sep_free)
  have n: "nf ?al (?q @ [?E])"
    using nf_normalizeString [OF nf_Nil sf, of ?al] by (simp only: p)
  then have el: "\<forall>s \<in> set (?q @ [?E]). s \<noteq> [] \<and> CHR ''/'' \<notin> set s"
    by (auto simp: nf_def)
  have lastX: "last ?X \<noteq> CHR ''/''"
    using E by (simp add: last_append) (metis Ene(1) last_in_set E)
  have form: "normalize ?X = ?pre @ joinWith ''/'' (?q @ [?E])"
    using normalize_form [OF _ p _ el] lastX by simp
  have "rootForm (normalize ?X) ?pre (?q @ [?E])"
    unfolding rootForm_def using form n by auto
  then show ?thesis unfolding root by blast
qed

lemma writeEntry_under:
  "pathUnder dir outputPath \<noteq> None \<Longrightarrow> snd (writeEntry dir outputPath data st) = snd st"
  by (auto simp: writeEntry_def split: option.splits)

lemma extractEntries_outside:
  assumes "rootForm dir pre res"
  shows "snd (snd (extractEntries dir entries st)) = snd st"
proof (induction entries arbitrary: st)
  case Nil
  then show ?case by simp
next
  case (Cons e entries)
  obtain raw stream where e: "e = (raw, stream)" by (cases e)
  show ?case
  proof (cases "validateFileName (entryFileName raw)")
    case (Some msg)
    then show ?thesis by (simp add: e)
  next
    case None
    then have "''..'' \<notin> set (splitOn CHR ''/'' (entryFileName raw))"
      by (auto simp: validateFileName_def split: if_splits)
    then have "pathUnder dir (path_join [dir, entryFileName raw]) \<noteq> None"
      using path_join_under [OF assms] by simp
    then have "snd (writeEntry dir (path_join [dir, entryFileName raw]) data st) = snd st" for data
      by (rule writeEntry_under)
    then show ?thesis
      using None Cons.IH by (auto simp: e Let_def split: option.splits)
  qed
qed

text \<open>
  Claim C1. Whatever the archive holds, extraction writes no file at a path outside
  the extraction directory of the job: for every upload path, every time stamp and
  every disk (so every archive and every entry name in it, names with \<^verbatim>\<open>..\<close>
  segments, absolute names and names with backslashes included), the list of files
  written outside \<^verbatim>\<open>extractedPath\<close> is after \<^verbatim>\<open>extractAPK\<close> what it was before.
  An entry name that would lead out of the directory never reaches
  \<^verbatim>\<open>path.join\<close>: the archive reader reports it as an error, which rejects the
  extraction.
\<close>

theorem extractAPK_writes_inside:
  "outside (snd (extractAPK (newAnalyzer path now) d)) = outside d"
proof -
  obtain pre res where "rootForm (extractedPath (newAnalyzer path now)) pre res"
    using extractedPath_rootForm by blast
  then show ?thesis
    by (auto simp: extractAPK_def Let_def extractEntries_outside split: option.splits apk_file.splits)
qed

text \<open>
  The program has no check of its own: \<^verbatim>\<open>path.join\<close> follows a \<^verbatim>\<open>..\<close> segment out of
  the directory. In the archive below the second entry stops the extraction with the
  reader's error, after the first has been written.
\<close>

lemma path_join_leaves_directory:
  "path_join [''/srv/uploads/extracted_5'', ''../../evil.sh''] = ''/srv/evil.sh''"
  by code_simp

lemma extractAPK_rejects_traversal:
  "(let r = extractAPK (newAnalyzer ''/srv/uploads/a.apk'' 5)
     \<lparr>apk = Some (Zip [(''res/a.png'', Some ''png''), (''../../evil.sh'', Some ''x'')]),
      extracted = None, outside = [], fixedApksDirExists = False,
      files = (Map.empty :: string \<rightharpoonup> string)\<rparr>
    in fst r = Some (Error ''invalid relative path: ../../evil.sh'')
       \<and> extracted (snd r) = Some (Dir [(''res'', Dir [(''a.png'', File ''png'')])])
       \<and> outside (snd r) = [])"
  by code_simp

section \<open>Properties of repackaging\<close>

lemma addDirectory_treeFiles:
  "addDirectory ap n
     = map (\<lambda>(p, item, c). (p, c)) (filter (\<lambda>(p, item, c). plainFile item) (treeFiles ap n))"
  and addItems_treeItems:
  "addItems ap items
     = map (\<lambda>(p, item, c). (p, c)) (filter (\<lambda>(p, item, c). plainFile item) (treeItems ap items))"
  by (induction ap n and ap items rule: addDirectory_addItems.induct)
    (simp_all add: plainFile_def)

lemma addRemainingFiles_originalFiles:
  "addRemainingFiles scratch
     = map (\<lambda>(p, item, c). (p, c))
         (filter (\<lambda>(p, item, c). plainFile item) (originalFiles scratch))"
  by (simp add: addRemainingFiles_def originalFiles_def addDirectory_treeFiles split: option.split)

text \<open>
  Claim C5, as the code has it. When the extraction directory has no manifest,
  \<^verbatim>\<open>generateDevModeAPK\<close> puts into the archive exactly what \<^verbatim>\<open>addRemainingFiles\<close> adds:
  every entry of the archive is a file of the tree, under its path below the
  extraction directory and with its content unchanged (so nothing is generated, the
  network security configuration included), and every file of the tree whose name
  neither ends in \<^verbatim>\<open>.java\<close>, \<^verbatim>\<open>.kt\<close> or \<^verbatim>\<open>.smali\<close> nor is \<^verbatim>\<open>AndroidManifest.xml\<close>
  is an entry of the archive. When the output directory exists or can be made and no
  stream fails, the archive is written and its path returned.
\<close>

theorem repackaging_without_manifest:
  assumes "child (extracted d) ''AndroidManifest.xml'' = None"
  shows "devModeEntries (extractedPath a) (extracted d) = Inr (addRemainingFiles (extracted d))
    \<and> (\<forall>(p, c) \<in> set (addRemainingFiles (extracted d)).
           \<exists>item. (p, item, c) \<in> set (originalFiles (extracted d)))
    \<and> (\<forall>(p, item, c) \<in> set (originalFiles (extracted d)).
           plainFile item \<longrightarrow> (p, c) \<in> set (addRemainingFiles (extracted d)))
    \<and> ((fixedApksDirExists d \<or> \<not> mkdirFails e) \<and> \<not> outputFails e \<longrightarrow>
           (\<exists>fixedApkPath d'. generateDevModeAPK e a now d = (Inr (Some fixedApkPath), d')
              \<and> files d' fixedApkPath = Some (compress e (addRemainingFiles (extracted d)))))"
proof (intro conjI)
  show 1: "devModeEntries (extractedPath a) (extracted d) = Inr (addRemainingFiles (extracted d))"
    using assms by (simp add: devModeEntries_def)
  show "\<forall>(p, c) \<in> set (addRemainingFiles (extracted d)).
           \<exists>item. (p, item, c) \<in> set (originalFiles (extracted d))"
    by (auto simp: addRemainingFiles_originalFiles)
  show "\<forall>(p, item, c) \<in> set (originalFiles (extracted d)).
           plainFile item \<longrightarrow> (p, c) \<in> set (addRemainingFiles (extracted d))"
    by (force simp: addRemainingFiles_originalFiles)
  show "(fixedApksDirExists d \<or> \<not> mkdirFails e) \<and> \<not> outputFails e \<longrightarrow>
           (\<exists>fixedApkPath d'. generateDevModeAPK e a now d = (Inr (Some fixedApkPath), d')
              \<and> files d' fixedApkPath = Some (compress e (addRemainingFiles (extracted d))))"
    using 1 by (auto simp: generateDevModeAPK_def Let_def)
qed

theorem repackaging_without_manifest_witness:
  "child (Some (Dir [(''classes.dex'', File ''dex''), (''res'', Dir [(''icon.png'', File ''png'')])]))
     ''AndroidManifest.xml'' = None
   \<and> plainFile ''icon.png''
   \<and> (''res/icon.png'', ''png'') \<in> set (addRemainingFiles
        (Some (Dir [(''classes.dex'', File ''dex''), (''res'', Dir [(''icon.png'', File ''png'')])])))
   \<and> devModeEntries ''/srv/uploads/extracted_5''
        (Some (Dir [(''classes.dex'', File ''dex''), (''res'', Dir [(''icon.png'', File ''png'')])]))
      = Inr (addRemainingFiles
        (Some (Dir [(''classes.dex'', File ''dex''), (''res'', Dir [(''icon.png'', File ''png'')])])))"
proof -
  let ?t = "Some (Dir [(''classes.dex'', File ''dex''), (''res'', Dir [(''icon.png'', File ''png'')])])"
  let ?d = "\<lparr>apk = None, extracted = ?t, outside = [], fixedApksDirExists = True,
             files = (Map.empty :: string \<rightharpoonup> string)\<rparr>"
  let ?a = "\<lparr>apkPath = ''/srv/uploads/a.apk'', extractedPath = ''/srv/uploads/extracted_5'',
             analysisResults = initializeAnalysisResults, allVulnerabilities = []\<rparr>"
  have 1: "child (extracted ?d) ''AndroidManifest.xml'' = None" by simp
  have 2: "plainFile ''icon.png''"
    by (simp add: plainFile_def endsWith_def suffix_to_prefix)
  have 3: "(''res/icon.png'', ''icon.png'', ''png'') \<in> set (originalFiles (extracted ?d))"
    by (simp add: originalFiles_def archiveItemPath_def path_join_def normalize_def)
  note r = repackaging_without_manifest [OF 1, of ?a]
  from r have A: "devModeEntries (extractedPath ?a) (extracted ?d)
      = Inr (addRemainingFiles (extracted ?d))" by (rule conjunct1)
  from r have B: "\<forall>(p, item, c) \<in> set (originalFiles (extracted ?d)).
      plainFile item \<longrightarrow> (p, c) \<in> set (addRemainingFiles (extracted ?d))" by blast
  from B 3 2 have C: "(''res/icon.png'', ''png'') \<in> set (addRemainingFiles (extracted ?d))"
    by fast
  from A C 1 2 show ?thesis by simp
qed

text \<open>
  The claim as the specification states it fails: without a manifest no network
  security configuration is generated. The archive of a tree with one file holds that
  file and nothing else.
\<close>

theorem repackaging_without_manifest_counterexample:
  "child (Some (Dir [(''classes.dex'', File ''dex'')])) ''AndroidManifest.xml'' = None
   \<and> devModeEntries ''/srv/uploads/extracted_5'' (Some (Dir [(''classes.dex'', File ''dex'')]))
       = Inr [(''classes.dex'', ''dex'')]
   \<and> (''res/xml/network_security_config.xml'', createNetworkSecurityConfig)
       \<notin> set [(''classes.dex'', ''dex'')]"
  by code_simp

text \<open>
  A source file of a tree without a manifest is in no branch handed to the archive:
  \<^verbatim>\<open>addRemainingFiles\<close> skips it as already processed, and without a manifest
  \<^verbatim>\<open>processSourceFilesForDevMode\<close> has not run.
\<close>

lemma repackaging_without_manifest_drops_sources:
  "devModeEntries ''/srv/uploads/extracted_5''
     (Some (Dir [(''classes.dex'', File ''dex''), (''Main.java'', File ''class Main {}'')]))
   = Inr [(''classes.dex'', ''dex'')]"
  by code_simp

section \<open>Properties of the job\<close>



lemma runAnalyses_apkPath [simp]: "apkPath (runAnalyses registry scratch a) = apkPath a"
proof (induction registry arbitrary: a)
  case Nil
  then show ?case by simp
next
  case (Cons d registry)
  have "apkPath (runAnalysis scratch a d) = apkPath a"
    by (simp add: runAnalysis_def split: sum.split)
  with Cons show ?case by simp
qed






section \<open>The extraction directory after the job\<close>

text \<open>
  Claim C2, at a concrete input. The archive is valid, the directory \<^verbatim>\<open>fixed_apks\<close> does
  not exist and \<^verbatim>\<open>mkdir\<close> fails. \<^verbatim>\<open>generateDevModeAPK\<close> catches the error and returns
  \<^verbatim>\<open>null\<close>; \<^verbatim>\<open>analyzeAPK\<close> then returns its result without a repackaged artifact, and
  the extraction directory is still there, with the extracted file in it.
\<close>

theorem analyzeAPK_null_result_keeps_directory:
  "(let r = analyzeAPK
       \<lparr>mkdirFails = True, outputFails = False, compress = (\<lambda>entries. ''zip''),
        keystoreExists = True, zipalign = (\<lambda>c. None), jarsigner = (\<lambda>c. None),
        copyFails = (\<lambda>src dst. False), renameFails = (\<lambda>src dst. False),
        removeFails = (\<lambda>path. False), xmlParses = (\<lambda>t. True)\<rparr>
       6 (newAnalyzer ''/srv/uploads/a.apk'' 5)
       \<lparr>apk = Some (Zip [(''classes.dex'', Some ''dex'')]), extracted = None, outside = [],
        fixedApksDirExists = False, files = (Map.empty :: string \<rightharpoonup> string)\<rparr>
    in (case fst r of Inl err \<Rightarrow> False | Inr out \<Rightarrow> fixedApkPath out = None)
       \<and> extracted (snd r) = Some (Dir [(''classes.dex'', File ''dex'')]))"
  by code_simp

text \<open>
  The sibling paths at the same archive: with \<^verbatim>\<open>fixed_apks\<close> in place the signed
  artifact is returned, and when the output stream fails the error is thrown on; both
  times the extraction directory is gone.
\<close>

lemma analyzeAPK_signed_result_removes_directory:
  "(let r = analyzeAPK
       \<lparr>mkdirFails = True, outputFails = False, compress = (\<lambda>entries. ''zip''),
        keystoreExists = True, zipalign = (\<lambda>c. None), jarsigner = (\<lambda>c. None),
        copyFails = (\<lambda>src dst. False), renameFails = (\<lambda>src dst. False),
        removeFails = (\<lambda>path. False), xmlParses = (\<lambda>t. True)\<rparr>
       6 (newAnalyzer ''/srv/uploads/a.apk'' 5)
       \<lparr>apk = Some (Zip [(''classes.dex'', Some ''dex'')]), extracted = None, outside = [],
        fixedApksDirExists = True, files = (Map.empty :: string \<rightharpoonup> string)\<rparr>
    in (case fst r of Inl err \<Rightarrow> False
        | Inr out \<Rightarrow> fixedApkPath out = Some ''fixed_apks/dev_mode_6_a_signed.apk'')
       \<and> extracted (snd r) = None)"
  by code_simp

lemma analyzeAPK_error_removes_directory:
  "(let r = analyzeAPK
       \<lparr>mkdirFails = False, outputFails = True, compress = (\<lambda>entries. ''zip''),
        keystoreExists = True, zipalign = (\<lambda>c. None), jarsigner = (\<lambda>c. None),
        copyFails = (\<lambda>src dst. False), renameFails = (\<lambda>src dst. False),
        removeFails = (\<lambda>path. False), xmlParses = (\<lambda>t. True)\<rparr>
       6 (newAnalyzer ''/srv/uploads/a.apk'' 5)
       \<lparr>apk = Some (Zip [(''classes.dex'', Some ''dex'')]), extracted = None, outside = [],
        fixedApksDirExists = False, files = (Map.empty :: string \<rightharpoonup> string)\<rparr>
    in (case fst r of Inl err \<Rightarrow> True | Inr out \<Rightarrow> False)
       \<and> extracted (snd r) = None)"
  by code_simp

section \<open>Properties of occurrences\<close>

lemma append_eq_appendD:
  "xs @ ys = zs @ ts \<Longrightarrow>
   \<exists>us. xs = zs @ us \<and> us @ ys = ts \<or> xs @ us = zs \<and> ys = us @ ts"
  by (simp only: append_eq_append_conv2)

lemma border_iff: "border xs ys \<longleftrightarrow> (\<exists>z. z \<noteq> [] \<and> suffix z xs \<and> prefix z ys)"
  by (auto simp: border_def list_ex_iff in_set_prefixes)

lemma no_overlapD:
  assumes "\<not> overlap q r"
  shows "\<not> sublist q r" and "\<not> sublist r q"
    and "\<And>z. z \<noteq> [] \<Longrightarrow> suffix z q \<Longrightarrow> prefix z r \<Longrightarrow> False"
    and "\<And>z. z \<noteq> [] \<Longrightarrow> suffix z r \<Longrightarrow> prefix z q \<Longrightarrow> False"
  using assms by (auto simp: overlap_def border_iff)

lemma no_overlap_nonempty:
  assumes "\<not> overlap q r"
  shows "q \<noteq> []" and "r \<noteq> []"
  using assms by (auto simp: overlap_def)

text \<open>
  Where an occurrence of \<open>q\<close> lies in a text into which \<open>a\<close> was inserted, when the two
  do not overlap: before the inserted text or after it.
\<close>

lemma occurrence_in_insertion:
  assumes eq: "u @ a @ v = x @ q @ y" and no: "\<not> overlap q a"
  shows "(\<exists>s. u = x @ q @ s \<and> y = s @ a @ v) \<or> (\<exists>s. v = s @ q @ y \<and> x = u @ a @ s)"
proof -
  note n = no_overlapD [OF no]
  from eq obtain t where "u = x @ t \<and> t @ a @ v = q @ y \<or> u @ t = x \<and> a @ v = t @ q @ y"
    by (blast dest: append_eq_appendD)
  then show ?thesis
  proof (elim disjE conjE)
    assume u: "u = x @ t" and 1: "t @ a @ v = q @ y"
    from 1 obtain s where "t = q @ s \<and> s @ a @ v = y \<or> t @ s = q \<and> a @ v = s @ y"
      by (blast dest: append_eq_appendD)
    then show ?thesis
    proof (elim disjE conjE)
      assume "t = q @ s" and "s @ a @ v = y"
      with u show ?thesis by auto
    next
      assume q: "t @ s = q" and 2: "a @ v = s @ y"
      from 2 obtain r where "a = s @ r \<and> r @ v = y \<or> a @ r = s \<and> v = r @ y"
        by (blast dest: append_eq_appendD)
      then show ?thesis
      proof (elim disjE conjE)
        assume a: "a = s @ r" and "r @ v = y"
        show ?thesis
        proof (cases "s = []")
          case True
          with q u 2 show ?thesis by auto
        next
          case False
          moreover from q have "suffix s q" by (auto simp: suffix_def)
          moreover from a have "prefix s a" by (auto simp: prefix_def)
          ultimately show ?thesis using n(3) by blast
        qed
      next
        assume "a @ r = s" and "v = r @ y"
        with q have "q = t @ a @ r" by simp
        then have "sublist a q" by (auto simp: sublist_def)
        with n(2) show ?thesis by simp
      qed
    qed
  next
    assume x: "u @ t = x" and 1: "a @ v = t @ q @ y"
    from 1 obtain s where "a = t @ s \<and> s @ v = q @ y \<or> a @ s = t \<and> v = s @ q @ y"
      by (blast dest: append_eq_appendD)
    then show ?thesis
    proof (elim disjE conjE)
      assume "a @ s = t" and "v = s @ q @ y"
      with x show ?thesis by auto
    next
      assume a: "a = t @ s" and 2: "s @ v = q @ y"
      from 2 obtain r where "s = q @ r \<and> r @ v = y \<or> s @ r = q \<and> v = r @ y"
        by (blast dest: append_eq_appendD)
      then show ?thesis
      proof (elim disjE conjE)
        assume "s = q @ r" and "r @ v = y"
        with a have "a = t @ q @ r" by simp
        then have "sublist q a" by (auto simp: sublist_def)
        with n(1) show ?thesis by simp
      next
        assume q: "s @ r = q" and v: "v = r @ y"
        show ?thesis
        proof (cases "s = []")
          case True
          with q v a x show ?thesis by auto
        next
          case False
          moreover from a have "suffix s a" by (auto simp: suffix_def)
          moreover from q have "prefix s q" by (auto simp: prefix_def)
          ultimately show ?thesis using n(4) by blast
        qed
      qed
    qed
  qed
qed

lemma occurrence_after_prefix:
  assumes eq: "r @ t = x @ q @ y" and no: "\<not> overlap q r"
  shows "\<exists>x'. x = r @ x' \<and> t = x' @ q @ y"
proof -
  from eq have "[] @ r @ t = x @ q @ y" by simp
  from occurrence_in_insertion [OF this no] no_overlap_nonempty(1) [OF no]
  show ?thesis by auto
qed

lemma insertion_creates_nothing:
  assumes "\<not> overlap q a" and "sublist q (u @ a @ v)"
  shows "sublist q (u @ v)"
proof -
  from assms(2) obtain x y where "u @ a @ v = x @ q @ y" by (auto simp: sublist_def)
  from occurrence_in_insertion [OF this assms(1)] show ?thesis
  proof (elim disjE exE conjE)
    fix s assume "u = x @ q @ s"
    then have "u @ v = x @ q @ (s @ v)" by simp
    then show ?thesis unfolding sublist_def by blast
  next
    fix s assume "v = s @ q @ y"
    then have "u @ v = (u @ s) @ q @ y" by simp
    then show ?thesis unfolding sublist_def by blast
  qed
qed

lemma insertion_keeps_tagless:
  assumes "\<not> overlap lit a" and "c \<in> set v" and "tagged lit c (u @ a @ v)"
  shows "tagged lit c (u @ v)"
proof -
  from assms(3) obtain x y where eq: "u @ a @ v = x @ lit @ y" and c: "c \<in> set y"
    by (auto simp: tagged_def)
  from occurrence_in_insertion [OF eq assms(1)] show ?thesis
  proof (elim disjE exE conjE)
    fix s assume "u = x @ lit @ s"
    then have "u @ v = x @ lit @ (s @ v)" by simp
    moreover have "c \<in> set (s @ v)" using assms(2) by simp
    ultimately show ?thesis unfolding tagged_def by blast
  next
    fix s assume "v = s @ lit @ y"
    then have "u @ v = (u @ s) @ lit @ y" by simp
    with c show ?thesis unfolding tagged_def by blast
  qed
qed

lemma insertion_keeps_occurrence:
  assumes "sublist q (u @ v)" and "v \<noteq> []" and "hd v \<notin> set q"
  shows "sublist q (u @ a @ v)"
proof -
  from assms(1) obtain x y where "u @ v = x @ q @ y" by (auto simp: sublist_def)
  then obtain t where "u = x @ t \<and> t @ v = q @ y \<or> u @ t = x \<and> v = t @ q @ y"
    by (blast dest: append_eq_appendD)
  then show ?thesis
  proof (elim disjE conjE)
    assume "u @ t = x" and "v = t @ q @ y"
    then have "u @ a @ v = (u @ a @ t) @ q @ y" by simp
    then show ?thesis unfolding sublist_def by blast
  next
    assume u: "u = x @ t" and 1: "t @ v = q @ y"
    from 1 obtain s where "t = q @ s \<and> s @ v = y \<or> t @ s = q \<and> v = s @ y"
      by (blast dest: append_eq_appendD)
    then show ?thesis
    proof (elim disjE conjE)
      assume "t = q @ s"
      with u have "u @ a @ v = x @ q @ (s @ a @ v)" by simp
      then show ?thesis unfolding sublist_def by blast
    next
      assume q: "t @ s = q" and v: "v = s @ y"
      show ?thesis
      proof (cases "s = []")
        case True
        with q u have "u @ a @ v = x @ q @ (a @ v)" by simp
        then show ?thesis unfolding sublist_def by blast
      next
        case False
        with v have "hd v = hd s" by simp
        with False q have "hd v \<in> set q" by auto
        with assms(3) show ?thesis by simp
      qed
    qed
  qed
qed

subsection \<open>Replacing every occurrence\<close>

lemma suffix_self: "suffix q q"
  by simp

lemma replaceAll_trivial: "pat = [] \<or> s = [] \<Longrightarrow> replaceAll pat rep s = s"
  by (subst replaceAll.simps) simp

lemma replaceAll_match:
  "pat \<noteq> [] \<Longrightarrow> s \<noteq> [] \<Longrightarrow> prefix pat s \<Longrightarrow>
   replaceAll pat rep s = rep @ replaceAll pat rep (drop (length pat) s)"
  by (subst replaceAll.simps) simp

lemma replaceAll_skip:
  "pat \<noteq> [] \<Longrightarrow> s \<noteq> [] \<Longrightarrow> \<not> prefix pat s \<Longrightarrow>
   replaceAll pat rep s = hd s # replaceAll pat rep (tl s)"
  by (subst replaceAll.simps) simp

lemma replaceAll_cases [case_names trivial match skip]:
  assumes "pat = [] \<or> s = [] \<Longrightarrow> replaceAll pat rep s = s \<Longrightarrow> P"
    and "\<And>s'. pat \<noteq> [] \<Longrightarrow> s = pat @ s' \<Longrightarrow>
           replaceAll pat rep s = rep @ replaceAll pat rep s' \<Longrightarrow> P"
    and "\<And>c s'. pat \<noteq> [] \<Longrightarrow> s = c # s' \<Longrightarrow> \<not> prefix pat s \<Longrightarrow>
           replaceAll pat rep s = c # replaceAll pat rep s' \<Longrightarrow> P"
  shows P
proof (cases "pat = [] \<or> s = []")
  case True
  then show ?thesis using assms(1) replaceAll_trivial by blast
next
  case False
  show ?thesis
  proof (cases "prefix pat s")
    case True
    then obtain s' where s: "s = pat @ s'" by (auto simp: prefix_def)
    then have "drop (length pat) s = s'" by simp
    with replaceAll_match [of pat s rep] False True
    have "replaceAll pat rep s = rep @ replaceAll pat rep s'" by simp
    with False s show ?thesis using assms(2) by blast
  next
    case np: False
    from False obtain c s' where s: "s = c # s'" by (cases s) auto
    with replaceAll_skip [of pat s rep] False np
    have "replaceAll pat rep s = c # replaceAll pat rep s'" by simp
    with False s np show ?thesis using assms(3) by blast
  qed
qed

lemma replaceAll_induct [case_names trivial match skip]:
  assumes "\<And>s. pat = [] \<or> s = [] \<Longrightarrow> P s"
    and "\<And>s'. pat \<noteq> [] \<Longrightarrow> P s' \<Longrightarrow> P (pat @ s')"
    and "\<And>c s'. pat \<noteq> [] \<Longrightarrow> \<not> prefix pat (c # s') \<Longrightarrow> P s' \<Longrightarrow> P (c # s')"
  shows "P s"
proof (induction s rule: length_induct)
  case (1 s)
  show ?case
  proof (cases "pat = [] \<or> s = []")
    case True
    then show ?thesis by (rule assms(1))
  next
    case False
    show ?thesis
    proof (cases "prefix pat s")
      case True
      then obtain s' where s: "s = pat @ s'" by (auto simp: prefix_def)
      with False have "length s' < length s" by simp
      with 1 have "P s'" by blast
      with False s show ?thesis using assms(2) by blast
    next
      case np: False
      from False obtain c s' where s: "s = c # s'" by (cases s) auto
      with 1 have "P s'" by simp
      with False s np show ?thesis using assms(3) by blast
    qed
  qed
qed

lemma replaceAll_append:
  "pat \<noteq> [] \<Longrightarrow> replaceAll pat rep (pat @ s') = rep @ replaceAll pat rep s'"
  using replaceAll_match [of pat "pat @ s'" rep] by simp

lemma replaceAll_Cons:
  "pat \<noteq> [] \<Longrightarrow> \<not> prefix pat (c # s') \<Longrightarrow>
   replaceAll pat rep (c # s') = c # replaceAll pat rep s'"
  using replaceAll_skip [of pat "c # s'" rep] by simp

lemma set_replaceAll: "set (replaceAll pat rep s) \<subseteq> set s \<union> set rep"
proof (induction s rule: replaceAll_induct [where pat = pat])
  case (trivial s)
  then show ?case by (simp add: replaceAll_trivial)
next
  case (match s')
  then show ?case by (auto simp: replaceAll_append)
next
  case (skip c s')
  then show ?case by (auto simp: replaceAll_Cons)
qed

lemma replaceAll_absent: "\<not> sublist pat s \<Longrightarrow> replaceAll pat rep s = s"
proof (induction s rule: replaceAll_induct [where pat = pat])
  case (trivial s)
  then show ?case by (simp add: replaceAll_trivial)
next
  case (match s')
  then show ?case by (simp add: sublist_def) (metis append_Nil)
next
  case (skip c s')
  then have "\<not> sublist pat s'" by (simp add: sublist_Cons_right)
  with skip show ?case by (simp add: replaceAll_Cons)
qed

lemma replaceAll_changes:
  "replaceAll pat rep s = s \<or> sublist rep (replaceAll pat rep s)"
proof (induction s rule: replaceAll_induct [where pat = pat])
  case (trivial s)
  then show ?case by (simp add: replaceAll_trivial)
next
  case (match s')
  then show ?case by (simp add: replaceAll_append)
next
  case (skip c s')
  then show ?case by (auto simp: replaceAll_Cons sublist_Cons_right)
qed

text \<open>
  An end of \<open>q\<close> with which the result of the replacement begins stood at the beginning
  before, when \<open>q\<close> and the replacement text do not overlap; what follows it has no
  character that is new.
\<close>

lemma replaceAll_prefix_source:
  assumes no: "\<not> overlap q rep"
  shows "suffix z q \<Longrightarrow> replaceAll pat rep s = z @ y \<Longrightarrow>
         \<exists>y'. s = z @ y' \<and> set y \<subseteq> set y' \<union> set rep"
proof (induction s arbitrary: z y rule: replaceAll_induct [where pat = pat])
  case (trivial s)
  then show ?case by (auto simp: replaceAll_trivial)
next
  case (match s')
  note n = no_overlapD [OF no]
  from match.prems(2) match.hyps
  have eq: "rep @ replaceAll pat rep s' = z @ y" by (simp add: replaceAll_append)
  show ?case
  proof (cases "z = []")
    case True
    with match.prems(2) have "y = replaceAll pat rep (pat @ s')" by simp
    with set_replaceAll [of pat rep "pat @ s'"] True show ?thesis by auto
  next
    case False
    from eq obtain t where "rep = z @ t \<or> rep @ t = z"
      by (blast dest: append_eq_appendD)
    then show ?thesis
    proof
      assume "rep = z @ t"
      then have "prefix z rep" by (auto simp: prefix_def)
      with False match.prems(1) n(3) show ?thesis by blast
    next
      assume "rep @ t = z"
      then have "sublist rep z" by (metis sublist_appendI append_Nil)
      moreover from match.prems(1) have "sublist z q" by (rule suffix_imp_sublist)
      ultimately have "sublist rep q" by (rule sublist_order.order.trans)
      with n(2) show ?thesis by simp
    qed
  qed
next
  case (skip c s')
  from skip.prems(2) skip.hyps
  have eq: "c # replaceAll pat rep s' = z @ y" by (simp add: replaceAll_Cons)
  show ?case
  proof (cases z)
    case Nil
    with skip.prems(2) have "y = replaceAll pat rep (c # s')" by simp
    with set_replaceAll [of pat rep "c # s'"] Nil show ?thesis by auto
  next
    case (Cons d z')
    with eq have d: "d = c" and t: "replaceAll pat rep s' = z' @ y" by simp_all
    from skip.prems(1) Cons have "suffix z' q" by (metis suffix_ConsD)
    from skip.IH [OF this t] obtain y' where "s' = z' @ y'" and "set y \<subseteq> set y' \<union> set rep"
      by blast
    with Cons d show ?thesis by auto
  qed
qed

text \<open>
  An occurrence of \<open>q\<close> in the result of the replacement stood in the text before, when
  \<open>q\<close> and the replacement text do not overlap; what follows it has no character that
  is new.
\<close>

lemma replaceAll_occurrence_source:
  assumes no: "\<not> overlap q rep"
  shows "replaceAll pat rep s = x @ q @ y \<Longrightarrow>
         \<exists>x' y'. s = x' @ q @ y' \<and> set y \<subseteq> set y' \<union> set rep"
proof (induction s arbitrary: x rule: replaceAll_induct [where pat = pat])
  case (trivial s)
  then show ?case by (auto simp: replaceAll_trivial)
next
  case (match s')
  from match.prems match.hyps
  have "rep @ replaceAll pat rep s' = x @ q @ y" by (simp add: replaceAll_append)
  from occurrence_after_prefix [OF this no]
  obtain x' where "replaceAll pat rep s' = x' @ q @ y" by blast
  from match.IH [OF this] obtain x'' y' where "s' = x'' @ q @ y'"
    and "set y \<subseteq> set y' \<union> set rep" by blast
  then have "pat @ s' = (pat @ x'') @ q @ y' \<and> set y \<subseteq> set y' \<union> set rep" by simp
  then show ?case by blast
next
  case (skip c s')
  from skip.prems skip.hyps
  have eq: "c # replaceAll pat rep s' = x @ q @ y" by (simp add: replaceAll_Cons)
  show ?case
  proof (cases x)
    case Nil
    with skip.prems have "replaceAll pat rep (c # s') = q @ y" by simp
    from replaceAll_prefix_source [OF no suffix_self this]
    obtain y' where "c # s' = [] @ q @ y'" and "set y \<subseteq> set y' \<union> set rep" by auto
    then show ?thesis by blast
  next
    case (Cons d x')
    with eq have d: "d = c" and t: "replaceAll pat rep s' = x' @ q @ y" by simp_all
    from skip.IH [OF t] obtain x'' y' where "s' = x'' @ q @ y'"
      and "set y \<subseteq> set y' \<union> set rep" by blast
    then have "c # s' = (c # x'') @ q @ y' \<and> set y \<subseteq> set y' \<union> set rep" by simp
    then show ?thesis by blast
  qed
qed

lemma replaceAll_creates_nothing:
  assumes "\<not> overlap q rep" and "sublist q (replaceAll pat rep s)"
  shows "sublist q s"
proof -
  from assms(2) obtain x y where "replaceAll pat rep s = x @ q @ y" by (auto simp: sublist_def)
  from replaceAll_occurrence_source [OF assms(1) this] show ?thesis
    unfolding sublist_def by blast
qed

lemma replaceAll_keeps_tagless:
  assumes "\<not> overlap lit rep" and "c \<notin> set rep" and "tagged lit c (replaceAll pat rep s)"
  shows "tagged lit c s"
proof -
  from assms(3) obtain x y where "replaceAll pat rep s = x @ lit @ y" and c: "c \<in> set y"
    by (auto simp: tagged_def)
  from replaceAll_occurrence_source [OF assms(1) this(1)]
  obtain x' y' where "s = x' @ lit @ y'" and "set y \<subseteq> set y' \<union> set rep" by blast
  with c assms(2) show ?thesis unfolding tagged_def by blast
qed

text \<open>After the replacement no occurrence of the pattern is left.\<close>

lemma replaceAll_removes:
  assumes no: "\<not> overlap pat rep"
  shows "\<not> sublist pat (replaceAll pat rep s)"
proof (induction s rule: replaceAll_induct [where pat = pat])
  case (trivial s)
  with no_overlap_nonempty(1) [OF no] show ?case by (simp add: replaceAll_trivial)
next
  case (match s')
  show ?case
  proof
    assume "sublist pat (replaceAll pat rep (pat @ s'))"
    then obtain x y where "rep @ replaceAll pat rep s' = x @ pat @ y"
      using match.hyps by (auto simp: replaceAll_append sublist_def)
    from occurrence_after_prefix [OF this no] have "sublist pat (replaceAll pat rep s')"
      unfolding sublist_def by blast
    with match.IH show False by simp
  qed
next
  case (skip c s')
  show ?case
  proof
    assume "sublist pat (replaceAll pat rep (c # s'))"
    then have "prefix pat (replaceAll pat rep (c # s')) \<or> sublist pat (replaceAll pat rep s')"
      using skip.hyps by (auto simp: replaceAll_Cons sublist_Cons_right)
    then show False
    proof
      assume "prefix pat (replaceAll pat rep (c # s'))"
      then obtain y where "replaceAll pat rep (c # s') = pat @ y" by (auto simp: prefix_def)
      from replaceAll_prefix_source [OF no suffix_self this]
      have "prefix pat (c # s')" by (auto simp: prefix_def)
      with skip.hyps show False by simp
    next
      assume "sublist pat (replaceAll pat rep s')"
      with skip.IH show False by simp
    qed
  qed
qed

text \<open>
  An occurrence of \<open>q\<close> stays through the replacement when \<open>q\<close> and the pattern do not
  overlap.
\<close>

lemma replaceAll_keeps_prefix:
  assumes no: "\<not> overlap q pat"
  shows "suffix z q \<Longrightarrow> prefix z s \<Longrightarrow> prefix z (replaceAll pat rep s)"
proof (induction s arbitrary: z rule: replaceAll_induct [where pat = pat])
  case (trivial s)
  then show ?case by (simp add: replaceAll_trivial)
next
  case (match s')
  note n = no_overlapD [OF no]
  show ?case
  proof (cases "z = []")
    case True
    then show ?thesis by simp
  next
    case False
    from match.prems(2) have "prefix z pat \<or> prefix pat z"
      by (metis prefix_append prefixI prefix_same_cases)
    then show ?thesis
    proof
      assume "prefix z pat"
      with False match.prems(1) n(3) show ?thesis by blast
    next
      assume "prefix pat z"
      then have "sublist pat z" by (rule prefix_imp_sublist)
      moreover from match.prems(1) have "sublist z q" by (rule suffix_imp_sublist)
      ultimately have "sublist pat q" by (rule sublist_order.order.trans)
      with n(2) show ?thesis by simp
    qed
  qed
next
  case (skip c s')
  show ?case
  proof (cases z)
    case Nil
    then show ?thesis by simp
  next
    case (Cons d z')
    with skip.prems(2) have d: "d = c" and p: "prefix z' s'" by simp_all
    from skip.prems(1) Cons have "suffix z' q" by (metis suffix_ConsD)
    from skip.IH [OF this p] Cons d skip.hyps show ?thesis by (simp add: replaceAll_Cons)
  qed
qed

lemma replaceAll_keeps_occurrence:
  assumes no: "\<not> overlap q pat"
  shows "s = x @ q @ y \<Longrightarrow> sublist q (replaceAll pat rep s)"
proof (induction s arbitrary: x rule: replaceAll_induct [where pat = pat])
  case (trivial s)
  then show ?case by (auto simp: replaceAll_trivial sublist_def)
next
  case (match s')
  from occurrence_after_prefix [OF match.prems no]
  obtain x' where "s' = x' @ q @ y" by blast
  from match.IH [OF this] match.hyps show ?case
    by (simp add: replaceAll_append sublist_append)
next
  case (skip c s')
  show ?case
  proof (cases x)
    case Nil
    with skip.prems have "prefix q (c # s')" by (simp add: prefix_def)
    from replaceAll_keeps_prefix [OF no suffix_self this]
    show ?thesis by (rule prefix_imp_sublist)
  next
    case (Cons d x')
    with skip.prems have "s' = x' @ q @ y" by simp
    from skip.IH [OF this] skip.hyps show ?thesis
      by (simp add: replaceAll_Cons sublist_Cons_right)
  qed
qed

subsection \<open>Replacing the first occurrence, and the first tag\<close>

lemma replaceFirst_absent: "pat \<noteq> [] \<Longrightarrow> \<not> sublist pat s \<Longrightarrow> replaceFirst pat rep s = s"
proof (induction s)
  case Nil
  then show ?case by simp
next
  case (Cons c s)
  then show ?case by (auto simp: sublist_Cons_right)
qed

lemma replaceFirst_present:
  "sublist pat s \<Longrightarrow> \<exists>u v. s = u @ pat @ v \<and> replaceFirst pat rep s = u @ rep @ v"
proof (induction s)
  case Nil
  then show ?case by simp
next
  case (Cons c s)
  show ?case
  proof (cases "prefix pat (c # s)")
    case True
    then obtain v where v: "c # s = pat @ v" by (auto simp: prefix_def)
    have "drop (length pat) (c # s) = v" unfolding v by simp
    with True have "replaceFirst pat rep (c # s) = [] @ rep @ v" by simp
    moreover from v have "c # s = [] @ pat @ v" by simp
    ultimately show ?thesis by blast
  next
    case False
    with Cons.prems have "sublist pat s" by (simp add: sublist_Cons_right)
    from Cons.IH [OF this] obtain u v where "s = u @ pat @ v"
      and "replaceFirst pat rep s = u @ rep @ v" by blast
    with False have "c # s = (c # u) @ pat @ v
        \<and> replaceFirst pat rep (c # s) = (c # u) @ rep @ v" by simp
    then show ?thesis by blast
  qed
qed

lemma matchDelimited_None: "matchDelimited lit c s = None \<longleftrightarrow> \<not> tagged lit c s"
proof (induction s)
  case Nil
  then show ?case by (simp add: tagged_def)
next
  case (Cons x xs)
  show ?case
  proof (cases "prefix lit (x # xs) \<and> c \<in> set (drop (length lit) (x # xs))")
    case True
    then obtain v where v: "x # xs = lit @ v" by (auto simp: prefix_def)
    with True have "c \<in> set v" by simp
    with v have "tagged lit c (x # xs)" unfolding tagged_def by (metis append_Nil)
    with True show ?thesis by simp
  next
    case False
    have "tagged lit c (x # xs) \<longleftrightarrow> tagged lit c xs"
    proof
      assume "tagged lit c (x # xs)"
      then obtain u v where eq: "x # xs = u @ lit @ v" and c: "c \<in> set v"
        by (auto simp: tagged_def)
      show "tagged lit c xs"
      proof (cases u)
        case Nil
        with eq c False show ?thesis by (auto simp: prefix_def)
      next
        case (Cons d u')
        with eq have "xs = u' @ lit @ v" by simp
        with c show ?thesis unfolding tagged_def by blast
      qed
    next
      assume "tagged lit c xs"
      then obtain u v where "xs = u @ lit @ v" and c: "c \<in> set v" by (auto simp: tagged_def)
      then have "x # xs = (x # u) @ lit @ v" by simp
      with c show "tagged lit c (x # xs)" unfolding tagged_def by blast
    qed
    with Cons False show ?thesis by (auto split: option.splits)
  qed
qed

lemma matchDelimited_Some:
  "matchDelimited lit c s = Some (before, grp, after) \<Longrightarrow> s = before @ lit @ grp @ c # after"
proof (induction s arbitrary: before)
  case Nil
  then show ?case by simp
next
  case (Cons x xs)
  show ?case
  proof (cases "prefix lit (x # xs) \<and> c \<in> set (drop (length lit) (x # xs))")
    case True
    then obtain v where v: "x # xs = lit @ v" by (auto simp: prefix_def)
    have d: "drop (length lit) (x # xs) = v" unfolding v by simp
    with True have c: "c \<in> set v" by simp
    then have "dropWhile (\<lambda>y. y \<noteq> c) v \<noteq> []" by (simp add: dropWhile_eq_Nil_conv)
    then have "dropWhile (\<lambda>y. y \<noteq> c) v
        = hd (dropWhile (\<lambda>y. y \<noteq> c) v) # tl (dropWhile (\<lambda>y. y \<noteq> c) v)" by simp
    moreover from \<open>dropWhile (\<lambda>y. y \<noteq> c) v \<noteq> []\<close>
    have "hd (dropWhile (\<lambda>y. y \<noteq> c) v) = c" using hd_dropWhile [of "\<lambda>y. y \<noteq> c" v] by simp
    ultimately have "dropWhile (\<lambda>y. y \<noteq> c) v = c # tl (dropWhile (\<lambda>y. y \<noteq> c) v)"
      by simp
    then have split: "takeWhile (\<lambda>y. y \<noteq> c) v @ c # tl (dropWhile (\<lambda>y. y \<noteq> c) v) = v"
      by (metis takeWhile_dropWhile_id)
    from True Cons.prems have "before = []"
      and "grp = takeWhile (\<lambda>y. y \<noteq> c) (drop (length lit) (x # xs))"
      and "after = tl (dropWhile (\<lambda>y. y \<noteq> c) (drop (length lit) (x # xs)))"
      by simp_all
    then show ?thesis unfolding d using v split by simp
  next
    case False
    with Cons.prems obtain b' where "matchDelimited lit c xs = Some (b', grp, after)"
      and "before = x # b'" by (auto split: option.splits)
    with Cons.IH [of b'] show ?thesis by simp
  qed
qed

section \<open>Properties of the manifest\<close>

subsection \<open>The steps on any text\<close>

lemma replaceApplicationTag_cases [case_names none tag]:
  assumes "\<not> tagged ''<application'' CHR ''>'' s \<Longrightarrow> replaceApplicationTag attr s = s \<Longrightarrow> P"
    and "\<And>u v. tagged ''<application'' CHR ''>'' s \<Longrightarrow> s = u @ v \<Longrightarrow>
           replaceApplicationTag attr s = u @ attr @ v \<Longrightarrow> v \<noteq> [] \<Longrightarrow> hd v = CHR ''>'' \<Longrightarrow> P"
  shows P
proof (cases "matchDelimited ''<application'' CHR ''>'' s")
  case None
  then have "\<not> tagged ''<application'' CHR ''>'' s" by (simp add: matchDelimited_None)
  moreover from None have "replaceApplicationTag attr s = s"
    by (simp add: replaceApplicationTag_def)
  ultimately show ?thesis by (rule assms(1))
next
  case (Some r)
  obtain before grp after where r: "r = (before, grp, after)" by (cases r)
  from Some have t: "tagged ''<application'' CHR ''>'' s"
    using matchDelimited_None [of "''<application''" "CHR ''>''" s] by simp
  from Some r have "s = before @ ''<application'' @ grp @ CHR ''>'' # after"
    using matchDelimited_Some by blast
  then have 1: "s = (before @ ''<application'' @ grp) @ (CHR ''>'' # after)" by simp
  from Some r have 2: "replaceApplicationTag attr s
      = (before @ ''<application'' @ grp) @ attr @ (CHR ''>'' # after)"
    by (simp add: replaceApplicationTag_def)
  show ?thesis by (rule assms(2) [OF t 1 2]) simp_all
qed

lemma replaceApplicationTag_absent:
  assumes "\<not> overlap q attr" and "\<not> sublist q s"
  shows "\<not> sublist q (replaceApplicationTag attr s)"
proof (cases rule: replaceApplicationTag_cases [of s attr])
  case none
  with assms(2) show ?thesis by simp
next
  case (tag u v)
  with insertion_creates_nothing [OF assms(1), of u v] assms(2) show ?thesis by auto
qed

lemma replaceApplicationTag_present:
  assumes "CHR ''>'' \<notin> set q" and "sublist q s \<or> \<not> tagged ''<application'' CHR ''>'' s"
  shows "sublist q (replaceApplicationTag attr s)
         \<or> \<not> tagged ''<application'' CHR ''>'' (replaceApplicationTag attr s)"
proof (cases rule: replaceApplicationTag_cases [of s attr])
  case none
  then show ?thesis by simp
next
  case (tag u v)
  with assms(2) have "sublist q (u @ v)" by simp
  from insertion_keeps_occurrence [OF this tag(4), of attr] tag(5) assms(1) tag(3)
  show ?thesis by simp
qed

lemma replaceApplicationTag_adds:
  assumes "sublist k attr"
  shows "sublist k (replaceApplicationTag attr s)
         \<or> \<not> tagged ''<application'' CHR ''>'' (replaceApplicationTag attr s)"
proof (cases rule: replaceApplicationTag_cases [of s attr])
  case none
  then show ?thesis by simp
next
  case (tag u v)
  have "sublist attr (u @ attr @ v)" by (simp add: sublist_def) blast
  with assms have "sublist k (u @ attr @ v)" by (rule sublist_order.order.trans)
  with tag(3) show ?thesis by simp
qed

text \<open>
  The statement of \<^verbatim>\<open>enhanceManifestForDevMode\<close> for an attribute that can be switched
  off: \<open>k\<close> is the name of the attribute with the equals sign, \<open>pat\<close> the attribute
  switched off, \<open>rep\<close> the attribute switched on, and \<open>attr\<close> what is put into the tag.
\<close>

lemma switch_result:
  assumes "sublist k pat" and "sublist k rep" and "sublist k attr"
    and "\<not> overlap pat rep" and "\<not> overlap pat attr"
    and "s' = (if \<not> includesStr s k then replaceApplicationTag attr s else replaceAll pat rep s)"
  shows "\<not> includesStr s' pat
         \<and> (includesStr s' k \<or> \<not> tagged ''<application'' CHR ''>'' s')"
proof (cases "includesStr s k")
  case True
  with assms(6) have s': "s' = replaceAll pat rep s" by simp
  have "\<not> sublist pat s'" unfolding s' by (rule replaceAll_removes [OF assms(4)])
  moreover have "sublist k s'"
  proof -
    from replaceAll_changes [of pat rep s] show ?thesis
    proof
      assume "replaceAll pat rep s = s"
      with True s' show ?thesis by (simp add: includesStr_def)
    next
      assume "sublist rep (replaceAll pat rep s)"
      with assms(2) show ?thesis unfolding s' by (rule sublist_order.order.trans)
    qed
  qed
  ultimately show ?thesis by (simp add: includesStr_def)
next
  case False
  with assms(6) have s': "s' = replaceApplicationTag attr s" by simp
  from False have "\<not> sublist pat s"
    using assms(1) sublist_order.order.trans by (auto simp: includesStr_def)
  then have "\<not> sublist pat s'" unfolding s' by (rule replaceApplicationTag_absent [OF assms(5)])
  moreover have "sublist k s' \<or> \<not> tagged ''<application'' CHR ''>'' s'"
    unfolding s' by (rule replaceApplicationTag_adds [OF assms(3)])
  ultimately show ?thesis by (simp add: includesStr_def)
qed

lemma switch_absent:
  assumes "\<not> overlap q rep" and "\<not> overlap q attr" and "\<not> includesStr s q"
    and "s' = (if \<not> includesStr s k then replaceApplicationTag attr s else replaceAll pat rep s)"
  shows "\<not> includesStr s' q"
proof (cases "includesStr s k")
  case True
  with assms(4) have s': "s' = replaceAll pat rep s" by simp
  from replaceAll_creates_nothing [OF assms(1), of pat s] assms(3) show ?thesis
    unfolding s' by (auto simp: includesStr_def)
next
  case False
  with assms(4) have s': "s' = replaceApplicationTag attr s" by simp
  from replaceApplicationTag_absent [OF assms(2), of s] assms(3) show ?thesis
    unfolding s' by (simp add: includesStr_def)
qed

lemma switch_present:
  assumes "\<not> overlap q pat" and "CHR ''>'' \<notin> set q"
    and "\<not> overlap ''<application'' rep" and "CHR ''>'' \<notin> set rep"
    and "includesStr s q \<or> \<not> tagged ''<application'' CHR ''>'' s"
    and "s' = (if \<not> includesStr s k then replaceApplicationTag attr s else replaceAll pat rep s)"
  shows "includesStr s' q \<or> \<not> tagged ''<application'' CHR ''>'' s'"
proof (cases "includesStr s k")
  case True
  with assms(6) have s': "s' = replaceAll pat rep s" by simp
  from assms(5) show ?thesis
  proof
    assume "includesStr s q"
    then obtain x y where "s = x @ q @ y" by (auto simp: includesStr_def sublist_def)
    from replaceAll_keeps_occurrence [OF assms(1) this] show ?thesis
      unfolding s' by (simp add: includesStr_def)
  next
    assume "\<not> tagged ''<application'' CHR ''>'' s"
    with replaceAll_keeps_tagless [OF assms(3) assms(4), of pat s] show ?thesis
      unfolding s' by blast
  qed
next
  case False
  with assms(6) have s': "s' = replaceApplicationTag attr s" by simp
  from replaceApplicationTag_present [OF assms(2), of s attr] assms(5) show ?thesis
    unfolding s' by (simp add: includesStr_def)
qed

lemma switch_fixed:
  assumes "\<not> includesStr s pat"
    and "includesStr s k \<or> \<not> tagged ''<application'' CHR ''>'' s"
  shows "(if \<not> includesStr s k then replaceApplicationTag attr s else replaceAll pat rep s) = s"
proof (cases "includesStr s k")
  case True
  with assms(1) show ?thesis by (simp add: includesStr_def replaceAll_absent)
next
  case False
  with assms(2) have "\<not> tagged ''<application'' CHR ''>'' s" by simp
  then have "replaceApplicationTag attr s = s"
    by (cases rule: replaceApplicationTag_cases [of s attr]) simp_all
  with False show ?thesis by simp
qed

subsection \<open>The permissions\<close>

lemma addPermission_cases [case_names same added]:
  assumes "addPermission s p = s \<Longrightarrow> sublist p s \<or> \<not> sublist ''</manifest>'' s \<Longrightarrow> P"
    and "\<And>u v. s = u @ v \<Longrightarrow> addPermission s p = u @ permissionLine p @ v \<Longrightarrow>
           prefix ''</manifest>'' v \<Longrightarrow> P"
  shows P
proof (cases "sublist p s \<or> \<not> sublist ''</manifest>'' s")
  case True
  then have "addPermission s p = s"
    by (auto simp: addPermission_def includesStr_def replaceFirst_absent)
  then show ?thesis using True by (rule assms(1))
next
  case False
  then have "sublist ''</manifest>'' s" by simp
  from replaceFirst_present [OF this, of "permissionLine p @ ''</manifest>''"]
  obtain u w where s: "s = u @ ''</manifest>'' @ w"
    and r: "replaceFirst ''</manifest>'' (permissionLine p @ ''</manifest>'') s
            = u @ (permissionLine p @ ''</manifest>'') @ w" by blast
  from False have "addPermission s p
      = replaceFirst ''</manifest>'' (permissionLine p @ ''</manifest>'') s"
    by (simp add: addPermission_def includesStr_def permissionLine_def)
  with r have 2: "addPermission s p = u @ permissionLine p @ (''</manifest>'' @ w)" by simp
  from s have 1: "s = u @ (''</manifest>'' @ w)" by simp
  show ?thesis by (rule assms(2) [OF 1 2]) simp
qed

lemma addPermission_absent:
  assumes "\<not> overlap q (permissionLine p)" and "\<not> sublist q s"
  shows "\<not> sublist q (addPermission s p)"
proof (cases rule: addPermission_cases [of s p])
  case same
  with assms(2) show ?thesis by simp
next
  case (added u v)
  with insertion_creates_nothing [OF assms(1), of u v] assms(2) show ?thesis by auto
qed

lemma addPermission_present:
  assumes "CHR ''<'' \<notin> set q" and "sublist q s"
  shows "sublist q (addPermission s p)"
proof (cases rule: addPermission_cases [of s p])
  case same
  with assms(2) show ?thesis by simp
next
  case (added u v)
  from added(3) have "v \<noteq> []" and "hd v = CHR ''<''" by (auto simp: prefix_def)
  with insertion_keeps_occurrence [of q u v "permissionLine p"] assms added(1,2)
  show ?thesis by simp
qed

lemma addPermission_tagless:
  assumes "\<not> overlap ''<application'' (permissionLine p)"
    and "\<not> tagged ''<application'' CHR ''>'' s"
  shows "\<not> tagged ''<application'' CHR ''>'' (addPermission s p)"
proof (cases rule: addPermission_cases [of s p])
  case same
  with assms(2) show ?thesis by simp
next
  case (added u v)
  from added(3) have "CHR ''>'' \<in> set v" by (auto simp: prefix_def)
  from insertion_keeps_tagless [OF assms(1) this, of u] assms(2) added(1,2)
  show ?thesis by auto
qed

lemma addPermission_unclosed: "\<not> sublist ''</manifest>'' s \<Longrightarrow> addPermission s p = s"
  by (cases rule: addPermission_cases [of s p]) (auto simp: prefix_def sublist_def)

lemma addPermission_result:
  "sublist p (addPermission s p) \<or> \<not> sublist ''</manifest>'' (addPermission s p)"
proof (cases rule: addPermission_cases [of s p])
  case same
  then show ?thesis by simp
next
  case (added u v)
  have "sublist p (permissionLine p)" unfolding permissionLine_def by (rule sublist_appendI)
  moreover have "sublist (permissionLine p) (u @ permissionLine p @ v)"
    by (simp add: sublist_def) blast
  ultimately have "sublist p (u @ permissionLine p @ v)" by (rule sublist_order.order.trans)
  with added(2) show ?thesis by simp
qed

lemma addPermissions_absent:
  "\<forall>p \<in> set ps. \<not> overlap q (permissionLine p) \<Longrightarrow> \<not> sublist q s \<Longrightarrow>
   \<not> sublist q (foldl addPermission s ps)"
proof (induction ps arbitrary: s)
  case Nil
  then show ?case by simp
next
  case (Cons p ps)
  from Cons.prems have "\<not> sublist q (addPermission s p)" by (simp add: addPermission_absent)
  with Cons show ?case by simp
qed

lemma addPermissions_present:
  "CHR ''<'' \<notin> set q \<Longrightarrow> sublist q s \<Longrightarrow> sublist q (foldl addPermission s ps)"
proof (induction ps arbitrary: s)
  case Nil
  then show ?case by simp
next
  case (Cons p ps)
  from Cons.prems have "sublist q (addPermission s p)" by (simp add: addPermission_present)
  with Cons show ?case by simp
qed

lemma addPermissions_tagless:
  "\<forall>p \<in> set ps. \<not> overlap ''<application'' (permissionLine p) \<Longrightarrow>
   \<not> tagged ''<application'' CHR ''>'' s \<Longrightarrow>
   \<not> tagged ''<application'' CHR ''>'' (foldl addPermission s ps)"
proof (induction ps arbitrary: s)
  case Nil
  then show ?case by simp
next
  case (Cons p ps)
  from Cons.prems have "\<not> tagged ''<application'' CHR ''>'' (addPermission s p)"
    by (simp add: addPermission_tagless)
  with Cons show ?case by simp
qed

lemma addPermissions_unclosed:
  "\<not> sublist ''</manifest>'' s \<Longrightarrow> foldl addPermission s ps = s"
  by (induction ps arbitrary: s) (simp_all add: addPermission_unclosed)

lemma addPermissions_result:
  "\<forall>p \<in> set ps. CHR ''<'' \<notin> set p \<Longrightarrow> p \<in> set ps \<Longrightarrow>
   sublist p (foldl addPermission s ps) \<or> \<not> sublist ''</manifest>'' (foldl addPermission s ps)"
proof (induction ps arbitrary: s)
  case Nil
  then show ?case by simp
next
  case (Cons p0 ps)
  show ?case
  proof (cases "p \<in> set ps")
    case True
    with Cons show ?thesis by simp
  next
    case False
    with Cons.prems(2) have p: "p = p0" by simp
    from addPermission_result [of p s] show ?thesis
    proof
      assume "sublist p (addPermission s p)"
      moreover from Cons.prems(1) p have "CHR ''<'' \<notin> set p" by simp
      ultimately have "sublist p (foldl addPermission (addPermission s p) ps)"
        using addPermissions_present by blast
      with p show ?thesis by simp
    next
      assume n: "\<not> sublist ''</manifest>'' (addPermission s p)"
      then have "foldl addPermission (addPermission s p) ps = addPermission s p"
        by (rule addPermissions_unclosed)
      with n p show ?thesis by simp
    qed
  qed
qed

lemma addPermissions_fixed:
  "\<forall>p \<in> set ps. sublist p s \<or> \<not> sublist ''</manifest>'' s \<Longrightarrow> foldl addPermission s ps = s"
proof (induction ps)
  case Nil
  then show ?case by simp
next
  case (Cons p ps)
  then have "addPermission s p = s"
    by (auto simp: addPermission_def includesStr_def replaceFirst_absent)
  with Cons show ?case by simp
qed

subsection \<open>The texts of the manifest\<close>

lemma manifest_texts_contain:
  \<open>sublist ''android:debuggable='' ''android:debuggable="false"''\<close>
  \<open>sublist ''android:debuggable='' ''android:debuggable="true"''\<close>
  \<open>sublist ''android:debuggable='' '' android:debuggable="true"''\<close>
  \<open>sublist ''android:allowBackup='' ''android:allowBackup="false"''\<close>
  \<open>sublist ''android:allowBackup='' ''android:allowBackup="true"''\<close>
  \<open>sublist ''android:allowBackup='' '' android:allowBackup="true"''\<close>
  \<open>sublist ''android:networkSecurityConfig=''
     '' android:networkSecurityConfig="@xml/network_security_config"''\<close>
  by code_simp+

lemma debuggable_apart:
  \<open>\<not> overlap ''android:debuggable="false"'' ''android:debuggable="true"''\<close>
  \<open>\<not> overlap ''android:debuggable="false"'' '' android:debuggable="true"''\<close>
  \<open>\<not> overlap ''android:debuggable="false"'' ''android:allowBackup="true"''\<close>
  \<open>\<not> overlap ''android:debuggable="false"'' '' android:allowBackup="true"''\<close>
  \<open>\<not> overlap ''android:debuggable="false"''
     '' android:networkSecurityConfig="@xml/network_security_config"''\<close>
  \<open>list_all (\<lambda>p. \<not> overlap ''android:debuggable="false"'' (permissionLine p)) testPermissions\<close>
  \<open>\<not> overlap ''android:debuggable='' ''android:allowBackup="false"''\<close>
  by code_simp+

lemma allowBackup_apart:
  \<open>\<not> overlap ''android:allowBackup="false"'' ''android:allowBackup="true"''\<close>
  \<open>\<not> overlap ''android:allowBackup="false"'' '' android:allowBackup="true"''\<close>
  \<open>\<not> overlap ''android:allowBackup="false"''
     '' android:networkSecurityConfig="@xml/network_security_config"''\<close>
  \<open>list_all (\<lambda>p. \<not> overlap ''android:allowBackup="false"'' (permissionLine p)) testPermissions\<close>
  by code_simp+

lemma application_apart:
  \<open>\<not> overlap ''<application'' ''android:allowBackup="true"''\<close>
  \<open>list_all (\<lambda>p. \<not> overlap ''<application'' (permissionLine p)) testPermissions\<close>
  by code_simp+

lemma manifest_texts_characters:
  \<open>CHR ''>'' \<notin> set ''android:debuggable=''\<close>
  \<open>CHR ''>'' \<notin> set ''android:allowBackup=''\<close>
  \<open>CHR ''>'' \<notin> set ''android:networkSecurityConfig=''\<close>
  \<open>CHR ''>'' \<notin> set ''android:allowBackup="true"''\<close>
  \<open>CHR ''<'' \<notin> set ''android:debuggable=''\<close>
  \<open>CHR ''<'' \<notin> set ''android:allowBackup=''\<close>
  \<open>CHR ''<'' \<notin> set ''android:networkSecurityConfig=''\<close>
  \<open>list_all (\<lambda>p. CHR ''<'' \<notin> set p) testPermissions\<close>
  by code_simp+

subsection \<open>The manifest after the mutation\<close>

lemma enhanced_fixed:
  assumes "enhanced x"
  shows "enhanceManifestForDevMode x = x"
proof -
  let ?tagless = "\<not> tagged ''<application'' CHR ''>'' x"
  from assms have a: \<open>\<not> includesStr x ''android:debuggable="false"''\<close>
    and b: \<open>includesStr x ''android:debuggable='' \<or> ?tagless\<close>
    and c: \<open>\<not> includesStr x ''android:allowBackup="false"''\<close>
    and d: \<open>includesStr x ''android:allowBackup='' \<or> ?tagless\<close>
    and e: \<open>includesStr x ''android:networkSecurityConfig='' \<or> ?tagless\<close>
    and f: \<open>list_all (\<lambda>p. includesStr x p \<or> \<not> includesStr x ''</manifest>'') testPermissions\<close>
    by (simp_all add: enhanced_def)
  note 1 = switch_fixed [OF a b]
  note 2 = switch_fixed [OF c d]
  have 3: \<open>(if \<not> includesStr x ''android:networkSecurityConfig=''
             then replaceApplicationTag
                    '' android:networkSecurityConfig="@xml/network_security_config"'' x
             else x) = x\<close>
  proof (cases \<open>includesStr x ''android:networkSecurityConfig=''\<close>)
    case True
    then show ?thesis by simp
  next
    case False
    with e have ?tagless by simp
    then have \<open>replaceApplicationTag
        '' android:networkSecurityConfig="@xml/network_security_config"'' x = x\<close>
      by (cases rule: replaceApplicationTag_cases
            [of x \<open>'' android:networkSecurityConfig="@xml/network_security_config"''\<close>])
         simp_all
    with False show ?thesis by simp
  qed
  from f have "\<forall>p \<in> set testPermissions. sublist p x \<or> \<not> sublist ''</manifest>'' x"
    by (simp add: list_all_iff includesStr_def)
  then have 4: "foldl addPermission x testPermissions = x" by (rule addPermissions_fixed)
  show ?thesis
    by (simp only: enhanceManifestForDevMode_def Let_def 1 2 3 4)
qed

lemma enhanced_result: "enhanced (enhanceManifestForDevMode m)"
proof -
  let ?tagless = "\<lambda>s. \<not> tagged ''<application'' CHR ''>'' s"
  define m1 where
    \<open>m1 = (if \<not> includesStr m ''android:debuggable=''
           then replaceApplicationTag '' android:debuggable="true"'' m
           else replaceAll ''android:debuggable="false"'' ''android:debuggable="true"'' m)\<close>
  define m2 where
    \<open>m2 = (if \<not> includesStr m1 ''android:allowBackup=''
           then replaceApplicationTag '' android:allowBackup="true"'' m1
           else replaceAll ''android:allowBackup="false"'' ''android:allowBackup="true"'' m1)\<close>
  define m3 where
    \<open>m3 = (if \<not> includesStr m2 ''android:networkSecurityConfig=''
           then replaceApplicationTag
                  '' android:networkSecurityConfig="@xml/network_security_config"'' m2
           else m2)\<close>
  define m4 where "m4 = foldl addPermission m3 testPermissions"
  have r: "enhanceManifestForDevMode m = m4"
    by (simp only: enhanceManifestForDevMode_def Let_def m4_def m3_def m2_def m1_def)

  have a1: \<open>\<not> includesStr m1 ''android:debuggable="false"''\<close>
    and b1: \<open>includesStr m1 ''android:debuggable='' \<or> ?tagless m1\<close>
    using switch_result [OF manifest_texts_contain(1,2,3) debuggable_apart(1,2) m1_def]
    by simp_all

  have c2: \<open>\<not> includesStr m2 ''android:allowBackup="false"''\<close>
    and d2: \<open>includesStr m2 ''android:allowBackup='' \<or> ?tagless m2\<close>
    using switch_result [OF manifest_texts_contain(4,5,6) allowBackup_apart(1,2) m2_def]
    by simp_all
  have a2: \<open>\<not> includesStr m2 ''android:debuggable="false"''\<close>
    by (rule switch_absent [OF debuggable_apart(3,4) a1 m2_def])
  have b2: \<open>includesStr m2 ''android:debuggable='' \<or> ?tagless m2\<close>
    by (rule switch_present [OF debuggable_apart(7) manifest_texts_characters(1)
          application_apart(1) manifest_texts_characters(4) b1 m2_def])

  have a3: \<open>\<not> sublist ''android:debuggable="false"'' m3\<close>
    using a2 replaceApplicationTag_absent [OF debuggable_apart(5), of m2]
    by (simp add: m3_def includesStr_def)
  have c3: \<open>\<not> sublist ''android:allowBackup="false"'' m3\<close>
    using c2 replaceApplicationTag_absent [OF allowBackup_apart(3), of m2]
    by (simp add: m3_def includesStr_def)
  have b3: \<open>sublist ''android:debuggable='' m3 \<or> ?tagless m3\<close>
    using b2 replaceApplicationTag_present [OF manifest_texts_characters(1), of m2]
    by (auto simp: m3_def includesStr_def)
  have d3: \<open>sublist ''android:allowBackup='' m3 \<or> ?tagless m3\<close>
    using d2 replaceApplicationTag_present [OF manifest_texts_characters(2), of m2]
    by (auto simp: m3_def includesStr_def)
  have e3: \<open>sublist ''android:networkSecurityConfig='' m3 \<or> ?tagless m3\<close>
    using replaceApplicationTag_adds [OF manifest_texts_contain(7), of m2]
    by (auto simp: m3_def includesStr_def)

  note lines1 = debuggable_apart(6) [unfolded list_all_iff]
  note lines2 = allowBackup_apart(4) [unfolded list_all_iff]
  note lines3 = application_apart(2) [unfolded list_all_iff]
  note perms = manifest_texts_characters(8) [unfolded list_all_iff]
  have a4: \<open>\<not> sublist ''android:debuggable="false"'' m4\<close>
    unfolding m4_def by (rule addPermissions_absent [OF lines1 a3])
  have c4: \<open>\<not> sublist ''android:allowBackup="false"'' m4\<close>
    unfolding m4_def by (rule addPermissions_absent [OF lines2 c3])
  have keep: "sublist q m4 \<or> ?tagless m4"
    if "CHR ''<'' \<notin> set q" and "sublist q m3 \<or> ?tagless m3" for q
    using that(2)
  proof
    assume "sublist q m3"
    from addPermissions_present [OF that(1) this] show ?thesis by (simp add: m4_def)
  next
    assume "?tagless m3"
    from addPermissions_tagless [OF lines3 this] show ?thesis by (simp add: m4_def)
  qed
  note b4 = keep [OF manifest_texts_characters(5) b3]
  note d4 = keep [OF manifest_texts_characters(6) d3]
  note e4 = keep [OF manifest_texts_characters(7) e3]
  have f4: "list_all (\<lambda>p. sublist p m4 \<or> \<not> sublist ''</manifest>'' m4) testPermissions"
    unfolding list_all_iff m4_def using addPermissions_result [OF perms] by blast
  from a4 b4 c4 d4 e4 f4 show ?thesis
    unfolding r enhanced_def includesStr_def by (simp only: simp_thms)
qed

text \<open>
  Claim C10. Applying \<^verbatim>\<open>enhanceManifestForDevMode\<close> to its own result changes nothing,
  for every text of a manifest: after the first application the three attributes and
  the test permissions are found where they can be put at all, and no attribute is
  switched off.
\<close>

theorem enhanceManifestForDevMode_idempotent:
  "enhanceManifestForDevMode (enhanceManifestForDevMode m) = enhanceManifestForDevMode m"
  by (rule enhanced_fixed [OF enhanced_result])

text \<open>The mutation at work, on a manifest with both attributes switched off.\<close>

lemma enhanceManifestForDevMode_example:
  \<open>enhanceManifestForDevMode
     ''<manifest><application android:debuggable="false" android:allowBackup="false"></application></manifest>''
   = ''<manifest><application android:debuggable="true" android:allowBackup="true" ''
     @ ''android:networkSecurityConfig="@xml/network_security_config"></application>''
     @ permissionLine ''android.permission.WRITE_EXTERNAL_STORAGE''
     @ permissionLine ''android.permission.READ_EXTERNAL_STORAGE''
     @ permissionLine ''android.permission.INTERNET''
     @ permissionLine ''android.permission.ACCESS_NETWORK_STATE''
     @ permissionLine ''android.permission.ACCESS_WIFI_STATE''
     @ permissionLine ''com.android.vending.BILLING''
     @ ''</manifest>''\<close>
  by code_simp

end
